theory Spec2Isabelle
  imports Main
begin

section \<open>Five-Dot Lines: the board\<close>

text \<open>
  The board of \<^verbatim>\<open>App.js\<close> is an array of rows, each an array of numbers (0 empty,
  1 occupied), indexed \<^verbatim>\<open>board[y][x]\<close>. A row is a list of \<open>int option\<close>, where
  \<open>None\<close> is JavaScript's \<^verbatim>\<open>undefined\<close> (a hole of the array). Indexing a row
  that does not exist raises a TypeError; indexing past the end of an existing row reads
  \<^verbatim>\<open>undefined\<close>; assigning past the end extends the row.
\<close>

datatype error = TypeError | Diverges

type_synonym row = "int option list"
type_synonym board = "row list"

definition N :: int where
  "N = 21"

definition CENTER :: int where
  "CENTER = N div 2"

definition clone :: "board \<Rightarrow> board" where
  "clone b = map (\<lambda>row. row) b"

definition makeEmptyBoard :: board where
  "makeEmptyBoard = replicate (nat N) (replicate (nat N) (Some 0))"

definition inside :: "int \<Rightarrow> int \<Rightarrow> bool" where
  "inside x y \<longleftrightarrow> x \<ge> 0 \<and> x < N \<and> y \<ge> 0 \<and> y < N"

text \<open>\<^verbatim>\<open>a[i]\<close> for an integer \<open>i\<close>: \<open>None\<close> is \<^verbatim>\<open>undefined\<close>.\<close>

definition elem :: "'a list \<Rightarrow> int \<Rightarrow> 'a option" where
  "elem xs i = (if 0 \<le> i \<and> i < int (length xs) then Some (xs ! nat i) else None)"

text \<open>\<^verbatim>\<open>board[y][x]\<close> as an expression.\<close>

definition get_cell :: "board \<Rightarrow> int \<Rightarrow> int \<Rightarrow> error + int option" where
  "get_cell b x y =
     (case elem b y of
        None \<Rightarrow> Inl TypeError
      | Some r \<Rightarrow> Inr (case elem r x of None \<Rightarrow> None | Some v \<Rightarrow> v))"

text \<open>
  \<^verbatim>\<open>r[x] = v\<close> on a row, for \<open>0 \<le> x\<close> (every assignment of the source is guarded by
  \<^verbatim>\<open>inside\<close> or follows a read of 0 at the same index).
\<close>

definition store :: "row \<Rightarrow> int \<Rightarrow> int \<Rightarrow> row" where
  "store r x v =
     (if x < int (length r) then r[nat x := Some v]
      else r @ replicate (nat x - length r) None @ [Some v])"

text \<open>\<^verbatim>\<open>board[y][x] = v\<close> as a statement; the board is returned updated.\<close>

definition set_cell :: "board \<Rightarrow> int \<Rightarrow> int \<Rightarrow> int \<Rightarrow> error + board" where
  "set_cell b x y v =
     (case elem b y of
        None \<Rightarrow> Inl TypeError
      | Some r \<Rightarrow> Inr (b[nat y := store r x v]))"

subsection \<open>Seeding\<close>

text \<open>The inner loops of \<^verbatim>\<open>seedInitialCross\<close>, over the offsets \<open>dx\<close> (or \<open>dy\<close>).\<close>

fun seed_row :: "board \<Rightarrow> int \<Rightarrow> int list \<Rightarrow> error + board" where
  "seed_row b ry [] = Inr b"
| "seed_row b ry (dx # dxs) =
     (let x = CENTER + dx in
      if inside x ry then
        (case set_cell b x ry 1 of Inl e \<Rightarrow> Inl e | Inr b' \<Rightarrow> seed_row b' ry dxs)
      else seed_row b ry dxs)"

fun seed_col :: "board \<Rightarrow> int \<Rightarrow> int list \<Rightarrow> error + board" where
  "seed_col b cx [] = Inr b"
| "seed_col b cx (dy # dys) =
     (let y = CENTER + dy in
      if inside cx y then
        (case set_cell b cx y 1 of Inl e \<Rightarrow> Inl e | Inr b' \<Rightarrow> seed_col b' cx dys)
      else seed_col b cx dys)"

text \<open>The outer loops, over \<^verbatim>\<open>hRows\<close> and \<^verbatim>\<open>vCols\<close>.\<close>

fun seed_rows :: "board \<Rightarrow> int list \<Rightarrow> int list \<Rightarrow> error + board" where
  "seed_rows b [] dxs = Inr b"
| "seed_rows b (ry # rys) dxs =
     (case seed_row b ry dxs of Inl e \<Rightarrow> Inl e | Inr b' \<Rightarrow> seed_rows b' rys dxs)"

fun seed_cols :: "board \<Rightarrow> int list \<Rightarrow> int list \<Rightarrow> error + board" where
  "seed_cols b [] dys = Inr b"
| "seed_cols b (cx # cxs) dys =
     (case seed_col b cx dys of Inl e \<Rightarrow> Inl e | Inr b' \<Rightarrow> seed_cols b' cxs dys)"

definition seedInitialCross :: "board \<Rightarrow> error + board" where
  "seedInitialCross board0 =
     (let b = clone board0;
          len = (8 :: int);
          halfLeft = (len - 1) div 2;
          halfRight = len - 1 - halfLeft;
          hRows = [CENTER, CENTER + 1];
          vCols = [CENTER, CENTER + 1]
      in case seed_rows b hRows [- halfLeft .. halfRight] of
           Inl e \<Rightarrow> Inl e
         | Inr b1 \<Rightarrow> seed_cols b1 vCols [- halfLeft .. halfRight])"

section \<open>Scored windows and the overlap rule\<close>

definition DIRS :: "(int \<times> int) list" where
  "DIRS = [(1, 0), (0, 1), (1, 1), (1, -1)]"

record segment =
  x1 :: int
  y1 :: int
  x2 :: int
  y2 :: int
  axisId :: nat
  cells :: "(int \<times> int) list"

text \<open>
  \<^verbatim>\<open>overlapsExisting\<close>: some already scored window of the same axis shares a cell
  with the candidate. The early exit on an empty ledger is the empty case of the scan.
\<close>

definition overlapsExisting :: "segment list \<Rightarrow> segment \<Rightarrow> bool" where
  "overlapsExisting existingSegments cand =
     list_ex (\<lambda>ex. axisId ex = axisId cand \<and>
                list_ex (\<lambda>c. list_ex (\<lambda>ec. fst ec = fst c \<and> snd ec = snd c) (cells ex))
                  (cells cand))
       existingSegments"

text \<open>
  The key of \<^verbatim>\<open>pushIfUnique\<close> is the string \<^verbatim>\<open>axisId:x1,y1->x2,y2\<close>. The decimal
  form of an integer has no separator character in it, so two keys are equal exactly when
  the five numbers are; the key is modelled as the tuple of the five numbers.
\<close>

definition key :: "segment \<Rightarrow> nat \<times> int \<times> int \<times> int \<times> int" where
  "key s = (axisId s, x1 s, y1 s, x2 s, y2 s)"

definition pushIfUnique :: "segment list \<Rightarrow> segment list \<Rightarrow> segment \<Rightarrow> segment list" where
  "pushIfUnique existingSegments segs cand =
     (if overlapsExisting existingSegments cand then segs
      else if \<not> list_ex (\<lambda>s. key s = key cand) segs then segs @ [cand]
      else segs)"

section \<open>Evaluating a placement\<close>

text \<open>
  The two counting loops of \<^verbatim>\<open>linesCreatedIfPlaced\<close> are one function of the start
  \<open>(rx, ry)\<close>, the step \<open>(sx, sy)\<close> and the counter. With a zero step the source's loop
  would never leave an occupied cell; the model returns \<open>Diverges\<close> there. The steps
  of \<open>DIRS\<close> are never zero.
\<close>

function count_run :: "board \<Rightarrow> int \<Rightarrow> int \<Rightarrow> int \<Rightarrow> int \<Rightarrow> int \<Rightarrow> error + int" where
  "count_run b rx ry sx sy l =
     (if \<not> inside rx ry then Inr l
      else case get_cell b rx ry of
             Inl e \<Rightarrow> Inl e
           | Inr v \<Rightarrow>
               if v \<noteq> Some 1 then Inr l
               else if sx = 0 \<and> sy = 0 then Inl Diverges
               else count_run b (rx + sx) (ry + sy) sx sy (l + 1))"
  by pat_completeness auto
termination
  by (relation "measure (\<lambda>(b, rx, ry, sx, sy, l).
        if sx > 0 then nat (N - rx) else if sx < 0 then nat (rx + 1)
        else if sy > 0 then nat (N - ry) else nat (ry + 1))")
     (auto simp: inside_def)

text \<open>The window that takes \<open>takeLeft\<close> cells before \<open>(x, y)\<close> and \<open>takeRight\<close> after it.\<close>

definition window :: "int \<Rightarrow> int \<Rightarrow> int \<Rightarrow> int \<Rightarrow> nat \<Rightarrow> int \<Rightarrow> int \<Rightarrow> segment" where
  "window x y dx dy a takeLeft takeRight =
     (let wx1 = x - dx * takeLeft; wy1 = y - dy * takeLeft;
          wx2 = x + dx * takeRight; wy2 = y + dy * takeRight
      in \<lparr> x1 = wx1, y1 = wy1, x2 = wx2, y2 = wy2, axisId = a,
           cells = map (\<lambda>k. (wx1 + dx * k, wy1 + dy * k)) [0 .. 4] \<rparr>)"

text \<open>The body of the \<^verbatim>\<open>forEach\<close> after the two counts \<open>l\<close> and \<open>r\<close> are known.\<close>

definition axis_windows ::
  "segment list \<Rightarrow> int \<Rightarrow> int \<Rightarrow> int \<Rightarrow> int \<Rightarrow> nat \<Rightarrow> int \<Rightarrow> int \<Rightarrow> segment list \<Rightarrow> segment list" where
  "axis_windows existingSegments x y dx dy a l r segs =
     (let total = l + 1 + r in
      if total \<ge> 5 then
        (let takeLeftA = min 4 l;
             takeRightA = 4 - takeLeftA;
             segs1 = (if takeRightA \<le> r
                      then pushIfUnique existingSegments segs (window x y dx dy a takeLeftA takeRightA)
                      else segs);
             takeRightB = min 4 r;
             takeLeftB = 4 - takeRightB
         in if takeLeftB \<le> l
            then pushIfUnique existingSegments segs1 (window x y dx dy a takeLeftB takeRightB)
            else segs1)
      else segs)"

definition axis_step ::
  "board \<Rightarrow> int \<Rightarrow> int \<Rightarrow> segment list \<Rightarrow> (int \<times> int) \<Rightarrow> nat \<Rightarrow> segment list \<Rightarrow> error + segment list" where
  "axis_step b x y existingSegments d a segs =
     (case d of (dx, dy) \<Rightarrow>
        (case count_run b (x - dx) (y - dy) (- dx) (- dy) 0 of
           Inl e \<Rightarrow> Inl e
         | Inr l \<Rightarrow>
             (case count_run b (x + dx) (y + dy) dx dy 0 of
                Inl e \<Rightarrow> Inl e
              | Inr r \<Rightarrow> Inr (axis_windows existingSegments x y dx dy a l r segs))))"

text \<open>\<^verbatim>\<open>DIRS.forEach\<close>, over the directions paired with their indices.\<close>

fun forEach_dirs ::
  "board \<Rightarrow> int \<Rightarrow> int \<Rightarrow> segment list \<Rightarrow> ((int \<times> int) \<times> nat) list \<Rightarrow> segment list \<Rightarrow> error + segment list" where
  "forEach_dirs b x y existingSegments [] segs = Inr segs"
| "forEach_dirs b x y existingSegments ((d, a) # ds) segs =
     (case axis_step b x y existingSegments d a segs of
        Inl e \<Rightarrow> Inl e
      | Inr segs' \<Rightarrow> forEach_dirs b x y existingSegments ds segs')"

record result =
  count :: nat
  segs :: "segment list"

text \<open>
  \<^verbatim>\<open>linesCreatedIfPlaced\<close> writes the probe into the board it is given and takes it
  out again: the board is threaded through and returned.
\<close>

definition linesCreatedIfPlaced ::
  "board \<Rightarrow> int \<Rightarrow> int \<Rightarrow> segment list \<Rightarrow> error + (board \<times> result)" where
  "linesCreatedIfPlaced b x y existingSegments =
     (if \<not> inside x y then Inr (b, \<lparr> count = 0, segs = [] \<rparr>)
      else case get_cell b x y of
        Inl e \<Rightarrow> Inl e
      | Inr v \<Rightarrow>
          if v \<noteq> Some 0 then Inr (b, \<lparr> count = 0, segs = [] \<rparr>)
          else
            (case set_cell b x y 1 of
               Inl e \<Rightarrow> Inl e
             | Inr b1 \<Rightarrow>
                 (case forEach_dirs b1 x y existingSegments (zip DIRS [0 ..< length DIRS]) [] of
                    Inl e \<Rightarrow> Inl e
                  | Inr sg \<Rightarrow>
                      (case set_cell b1 x y 0 of
                         Inl e \<Rightarrow> Inl e
                       | Inr b2 \<Rightarrow> Inr (b2, \<lparr> count = length sg, segs = sg \<rparr>)))))"

section \<open>Enumerating legal moves\<close>

text \<open>
  \<^verbatim>\<open>findAnyLegalMove\<close>: the inner loop over \<open>x\<close> for one row \<open>y\<close>, then the outer
  loop over \<open>y\<close>. The flag says whether \<^verbatim>\<open>return true\<close> was reached.
\<close>

fun findAnyLegalMove_x ::
  "board \<Rightarrow> segment list \<Rightarrow> int \<Rightarrow> int list \<Rightarrow> error + (board \<times> bool)" where
  "findAnyLegalMove_x b existingSegments y [] = Inr (b, False)"
| "findAnyLegalMove_x b existingSegments y (x # xs) =
     (case get_cell b x y of
        Inl e \<Rightarrow> Inl e
      | Inr v \<Rightarrow>
          if v \<noteq> Some 0 then findAnyLegalMove_x b existingSegments y xs
          else
            (case linesCreatedIfPlaced b x y existingSegments of
               Inl e \<Rightarrow> Inl e
             | Inr (b', r) \<Rightarrow>
                 if count r > 0 then Inr (b', True)
                 else findAnyLegalMove_x b' existingSegments y xs))"

fun findAnyLegalMove_y ::
  "board \<Rightarrow> segment list \<Rightarrow> int list \<Rightarrow> error + (board \<times> bool)" where
  "findAnyLegalMove_y b existingSegments [] = Inr (b, False)"
| "findAnyLegalMove_y b existingSegments (y # ys) =
     (case findAnyLegalMove_x b existingSegments y [0 .. N - 1] of
        Inl e \<Rightarrow> Inl e
      | Inr (b', found) \<Rightarrow>
          if found then Inr (b', True)
          else findAnyLegalMove_y b' existingSegments ys)"

definition findAnyLegalMove :: "board \<Rightarrow> segment list \<Rightarrow> error + (board \<times> bool)" where
  "findAnyLegalMove b existingSegments = findAnyLegalMove_y b existingSegments [0 .. N - 1]"

text \<open>\<^verbatim>\<open>getAllLegalMoves\<close> collects \<^verbatim>\<open>{x, y, count}\<close> and never leaves the loops early.\<close>

record legal_move =
  mx :: int
  my :: int
  mcount :: nat

fun getAllLegalMoves_x ::
  "board \<Rightarrow> segment list \<Rightarrow> int \<Rightarrow> int list \<Rightarrow> legal_move list \<Rightarrow> error + (board \<times> legal_move list)" where
  "getAllLegalMoves_x b sg yy [] out = Inr (b, out)"
| "getAllLegalMoves_x b sg yy (xx # xs) out =
     (case get_cell b xx yy of
        Inl e \<Rightarrow> Inl e
      | Inr v \<Rightarrow>
          if v \<noteq> Some 0 then getAllLegalMoves_x b sg yy xs out
          else
            (case linesCreatedIfPlaced b xx yy sg of
               Inl e \<Rightarrow> Inl e
             | Inr (b', r) \<Rightarrow>
                 if count r > 0
                 then getAllLegalMoves_x b' sg yy xs (out @ [\<lparr> mx = xx, my = yy, mcount = count r \<rparr>])
                 else getAllLegalMoves_x b' sg yy xs out))"

fun getAllLegalMoves_y ::
  "board \<Rightarrow> segment list \<Rightarrow> int list \<Rightarrow> legal_move list \<Rightarrow> error + (board \<times> legal_move list)" where
  "getAllLegalMoves_y b sg [] out = Inr (b, out)"
| "getAllLegalMoves_y b sg (yy # ys) out =
     (case getAllLegalMoves_x b sg yy [0 .. N - 1] out of
        Inl e \<Rightarrow> Inl e
      | Inr (b', out') \<Rightarrow> getAllLegalMoves_y b' sg ys out')"

definition getAllLegalMoves :: "board \<Rightarrow> segment list \<Rightarrow> error + (board \<times> legal_move list)" where
  "getAllLegalMoves b sg = getAllLegalMoves_y b sg [0 .. N - 1] []"

section \<open>The game session\<close>

text \<open>
  The state of the component that the game logic reads or writes. The message texts are
  named by constructors. Sound, the flash timer, the hover preview, the theme and the
  high score are presentation and are left out.
\<close>

datatype message = MsgPlace | MsgInvalid | MsgNice | MsgGreat nat

record game =
  board :: board
  score :: int
  moves :: int
  gameOver :: bool
  message :: message
  segments :: "segment list"
  flashCount :: nat

definition handleCellClick :: "game \<Rightarrow> int \<Rightarrow> int \<Rightarrow> error + game" where
  "handleCellClick s x y =
     (if gameOver s then Inr s
      else case get_cell (board s) x y of
        Inl e \<Rightarrow> Inl e
      | Inr v \<Rightarrow>
          if v \<noteq> Some 0 then Inr s
          else
            (case linesCreatedIfPlaced (board s) x y (segments s) of
               Inl e \<Rightarrow> Inl e
             | Inr (b, created) \<Rightarrow>
                 if count created \<le> 0 then Inr (s\<lparr> board := b, message := MsgInvalid \<rparr>)
                 else
                   (case set_cell (clone b) x y 1 of
                      Inl e \<Rightarrow> Inl e
                    | Inr next \<Rightarrow>
                        Inr (s\<lparr> board := next,
                                score := score s + int (count created),
                                moves := moves s + 1,
                                segments := segments s @ segs created,
                                flashCount := length (segs created),
                                message := (if count created = 1 then MsgNice
                                            else MsgGreat (count created)) \<rparr>))))"

definition initial_game :: "error + game" where
  "initial_game =
     (case seedInitialCross makeEmptyBoard of
        Inl e \<Rightarrow> Inl e
      | Inr b \<Rightarrow> Inr \<lparr> board = b, score = 0, moves = 0, gameOver = False,
                       message = MsgPlace, segments = [], flashCount = 0 \<rparr>)"

definition reset :: "game \<Rightarrow> error + game" where
  "reset s =
     (case seedInitialCross makeEmptyBoard of
        Inl e \<Rightarrow> Inl e
      | Inr b \<Rightarrow> Inr (s\<lparr> board := b, score := 0, moves := 0, gameOver := False,
                         message := MsgPlace, segments := [], flashCount := 0 \<rparr>))"

text \<open>
  After every render the component computes \<^verbatim>\<open>legalExists\<close> with
  \<^verbatim>\<open>findAnyLegalMove(board, segments)\<close> and its effect sets \<^verbatim>\<open>gameOver\<close> when
  there is none.
\<close>

definition render :: "game \<Rightarrow> error + game" where
  "render s =
     (case findAnyLegalMove (board s) (segments s) of
        Inl e \<Rightarrow> Inl e
      | Inr (b, legalExists) \<Rightarrow>
          Inr (if \<not> legalExists then s\<lparr> board := b, gameOver := True \<rparr> else s\<lparr> board := b \<rparr>))"

text \<open>
  One click event: the handler, then the render that follows it. An exception thrown by
  the handler is reported by the browser and the session goes on in the state it had.
\<close>

definition click :: "game \<Rightarrow> int \<times> int \<Rightarrow> game" where
  "click s c =
     (case handleCellClick s (fst c) (snd c) of
        Inl e \<Rightarrow> s
      | Inr s' \<Rightarrow> (case render s' of Inl e \<Rightarrow> s' | Inr s'' \<Rightarrow> s''))"

text \<open>A session without reset: clicks one after the other.\<close>

fun play :: "game \<Rightarrow> (int \<times> int) list \<Rightarrow> game" where
  "play s [] = s"
| "play s (c # cs) = play (click s c) cs"

section \<open>Well-formed boards and test boards\<close>

text \<open>
  The Board of the data model: \<open>N\<close> rows of \<open>N\<close> cells, each 0 or 1. Every board
  the component ever holds is of this form.
\<close>

definition wf_board :: "board \<Rightarrow> bool" where
  "wf_board b \<longleftrightarrow>
     int (length b) = N \<and>
     list_all (\<lambda>r. int (length r) = N \<and> list_all (\<lambda>v. v = Some 0 \<or> v = Some 1) r) b"

text \<open>
  The self-tests build their boards from the empty board by direct assignments
  \<^verbatim>\<open>t[y][x] = 1\<close> at cells of the board.
\<close>

definition occupy :: "board \<Rightarrow> (int \<times> int) list \<Rightarrow> board" where
  "occupy b cs = fold (\<lambda>c b'. b'[nat (snd c) := (b' ! nat (snd c))[nat (fst c) := Some 1]]) cs b"

text \<open>
  Scenario A of the specification: (6,8) to (9,8) occupied. Scenario B: (6,8) to (9,8) and
  (11,8) to (14,8) occupied, the gap at (10,8) empty.
\<close>

definition scenarioA_board :: board where
  "scenarioA_board = occupy makeEmptyBoard [(6, 8), (7, 8), (8, 8), (9, 8)]"

definition scenarioB_board :: board where
  "scenarioB_board =
     occupy makeEmptyBoard [(6, 8), (7, 8), (8, 8), (9, 8), (11, 8), (12, 8), (13, 8), (14, 8)]"

section \<open>Notions used to state the properties\<close>

text \<open>
  A window accepted by \<^verbatim>\<open>pushIfUnique\<close> during the evaluation of \<open>(x, y)\<close> against
  the ledger \<open>ex\<close>: it overlaps no ledger entry of its axis and it contains \<open>(x, y)\<close>.
\<close>

definition fresh_at :: "segment list \<Rightarrow> int \<Rightarrow> int \<Rightarrow> segment \<Rightarrow> bool" where
  "fresh_at ex x y w \<longleftrightarrow> \<not> overlapsExisting ex w \<and> (x, y) \<in> set (cells w)"

text \<open>
  The windows each click of a session appends to the ledger: what \<^verbatim>\<open>setSegments\<close>
  added to \<open>segments\<close>, click by click.
\<close>

fun commits :: "game \<Rightarrow> (int \<times> int) list \<Rightarrow> segment list list" where
  "commits s [] = []"
| "commits s (c # cs) =
     drop (length (segments s)) (segments (click s c)) # commits (click s c) cs"

text \<open>
  The test of the two enumerators on one cell: the cell is empty and its evaluation counts
  at least one window; and the count they report.
\<close>

definition legal_at :: "board \<Rightarrow> segment list \<Rightarrow> int \<Rightarrow> int \<Rightarrow> bool" where
  "legal_at b ex x y \<longleftrightarrow>
     get_cell b x y = Inr (Some 0) \<and>
     (case linesCreatedIfPlaced b x y ex of Inl e \<Rightarrow> False | Inr p \<Rightarrow> 0 < count (snd p))"

definition count_at :: "board \<Rightarrow> segment list \<Rightarrow> int \<Rightarrow> int \<Rightarrow> nat" where
  "count_at b ex x y =
     (case linesCreatedIfPlaced b x y ex of Inl e \<Rightarrow> 0 | Inr p \<Rightarrow> count (snd p))"

text \<open>
  The seeded cross as the specification describes it: two rows and two columns of eight
  through the centre. Lemma \<open>seed_is_cross\<close> shows that it is the board
  \<^verbatim>\<open>seedInitialCross(makeEmptyBoard())\<close> computes, and \<open>initial_game_eq\<close> that
  \<open>new_game\<close> is the state the component starts in.
\<close>

definition cross_board :: board where
  "cross_board =
     map (\<lambda>y. map (\<lambda>x. Some (if ((y = CENTER \<or> y = CENTER + 1) \<and> CENTER - 3 \<le> x \<and> x \<le> CENTER + 4) \<or>
                                  ((x = CENTER \<or> x = CENTER + 1) \<and> CENTER - 3 \<le> y \<and> y \<le> CENTER + 4)
                               then 1 else 0)) [0 .. N - 1]) [0 .. N - 1]"

definition new_game :: game where
  "new_game = \<lparr> board = cross_board, score = 0, moves = 0, gameOver = False,
                message = MsgPlace, segments = [], flashCount = 0 \<rparr>"

text \<open>
  The states a session can be in: the first render of the initial state, then clicks and
  resets, each followed by its render.
\<close>

inductive reachable :: "game \<Rightarrow> bool" where
  start: "initial_game = Inr s0 \<Longrightarrow> render s0 = Inr s \<Longrightarrow> reachable s"
| step: "reachable s \<Longrightarrow> reachable (click s c)"
| restart: "reachable s \<Longrightarrow> reset s = Inr s1 \<Longrightarrow> render s1 = Inr s' \<Longrightarrow> reachable s'"

text \<open>
  A session in which every click is a legal move, without the renders in between: as long
  as the next click is legal, \<^verbatim>\<open>legalExists\<close> is true and the render changes nothing
  (lemma \<open>play_legal_play\<close>).
\<close>

fun play_legal :: "game \<Rightarrow> (int \<times> int) list \<Rightarrow> game option" where
  "play_legal s [] = Some s"
| "play_legal s (c # cs) =
     (if \<not> gameOver s \<and> inside (fst c) (snd c) \<and> legal_at (board s) (segments s) (fst c) (snd c)
      then (case handleCellClick s (fst c) (snd c) of
              Inl e \<Rightarrow> None
            | Inr s' \<Rightarrow> play_legal s' cs)
      else None)"

text \<open>
  Two sessions from the seeded board. The first ends, after four moves, with a move at
  (9,8) that scores two windows of the vertical axis. The second is a complete game of 28
  moves, after which no legal move is left.
\<close>

definition double_score_clicks :: "(int \<times> int) list" where
  "double_score_clicks = [(9, 7), (9, 9), (9, 12), (9, 8)]"

definition terminal_clicks :: "(int \<times> int) list" where
  "terminal_clicks =
     [(14, 9), (7, 9), (10, 6), (11, 15), (12, 7), (6, 11), (9, 9), (11, 6), (9, 7), (15, 10),
      (8, 7), (13, 8), (15, 11), (9, 12), (10, 15), (9, 8), (12, 9), (12, 8), (13, 7), (6, 10),
      (8, 8), (7, 7), (7, 8), (8, 9), (13, 9), (9, 13), (8, 12), (12, 12)]"

definition terminal_game :: game where
  "terminal_game = play new_game terminal_clicks"

text \<open>
  The boards of the scenarios after the probe \<^verbatim>\<open>board[8][10] = 1\<close>, and a board with a
  run of five through (10,8): two occupied cells on each side and the probe.
\<close>

definition scenarioA_probe :: board where
  "scenarioA_probe = occupy scenarioA_board [(10, 8)]"

definition scenarioB_probe :: board where
  "scenarioB_probe = occupy scenarioB_board [(10, 8)]"

definition five_run_probe :: board where
  "five_run_probe = occupy makeEmptyBoard [(8, 8), (9, 8), (10, 8), (11, 8), (12, 8)]"

text \<open>
  The occupied cells of a board, and the cells at the offsets \<open>K\<close> from \<open>(x, y)\<close> along
  a direction.
\<close>

definition occupied :: "board \<Rightarrow> (int \<times> int) set" where
  "occupied b =
     set (filter (\<lambda>c. get_cell b (fst c) (snd c) = Inr (Some 1))
            (List.product [0 .. N - 1] [0 .. N - 1]))"

definition line_cells :: "int \<Rightarrow> int \<Rightarrow> int \<Rightarrow> int \<Rightarrow> int set \<Rightarrow> (int \<times> int) set" where
  "line_cells x y dx dy K = (\<lambda>k. (x + k * dx, y + k * dy)) ` K"

section \<open>Reading and writing well-formed boards\<close>

lemma clone_id: "clone b = b"
  by (simp add: clone_def)

lemma wf_board_row:
  assumes "wf_board b" "0 \<le> y" "y < N"
  shows "elem b y = Some (b ! nat y)" "int (length (b ! nat y)) = N"
    "list_all (\<lambda>v. v = Some 0 \<or> v = Some 1) (b ! nat y)"
proof -
  from assms have n: "nat y < length b" by (auto simp: wf_board_def)
  from assms show "elem b y = Some (b ! nat y)" by (auto simp: wf_board_def elem_def)
  from assms n have "int (length (b ! nat y)) = N \<and>
      list_all (\<lambda>v. v = Some 0 \<or> v = Some 1) (b ! nat y)"
    unfolding wf_board_def list_all_length by blast
  then show "int (length (b ! nat y)) = N"
    "list_all (\<lambda>v. v = Some 0 \<or> v = Some 1) (b ! nat y)" by auto
qed

lemma get_cell_wf:
  assumes "wf_board b" "inside x y"
  shows "get_cell b x y = Inr (Some 0) \<or> get_cell b x y = Inr (Some 1)"
proof -
  from assms have y: "0 \<le> y" "y < N" and x: "0 \<le> x" "x < N"
    by (auto simp: inside_def)
  note r = wf_board_row [OF assms(1) y]
  from r(2) x have "elem (b ! nat y) x = Some (b ! nat y ! nat x)"
    by (simp add: elem_def)
  moreover from r(2,3) x have "b ! nat y ! nat x = Some 0 \<or> b ! nat y ! nat x = Some 1"
    by (auto simp: list_all_length)
  ultimately show ?thesis
    using r(1) by (auto simp: get_cell_def)
qed

lemma get_cell_outside:
  assumes "wf_board b" "\<not> inside x y"
  shows "get_cell b x y = Inl TypeError \<or> get_cell b x y = Inr None"
proof (cases "0 \<le> y \<and> y < N")
  case True
  note r = wf_board_row [OF assms(1)] 
  from True assms(2) have "\<not> (0 \<le> x \<and> x < N)" by (auto simp: inside_def)
  with r(2)[of y] True have "elem (b ! nat y) x = None" by (auto simp: elem_def)
  with r(1)[of y] True show ?thesis by (simp add: get_cell_def)
next
  case False
  with assms(1) have "elem b y = None" by (auto simp: elem_def wf_board_def)
  then show ?thesis by (simp add: get_cell_def)
qed

lemma set_cell_wf:
  assumes "wf_board b" "inside x y" "v = 0 \<or> v = 1"
  shows "\<exists>b'. set_cell b x y v = Inr b' \<and> wf_board b' \<and>
           (\<forall>x' y'. get_cell b' x' y' = (if x' = x \<and> y' = y then Inr (Some v) else get_cell b x' y'))"
proof -
  from assms have y: "0 \<le> y" "y < N" and x: "0 \<le> x" "x < N"
    by (auto simp: inside_def)
  note r = wf_board_row [OF assms(1) y]
  define b' where "b' = b[nat y := (b ! nat y)[nat x := Some v]]"
  have st: "store (b ! nat y) x v = (b ! nat y)[nat x := Some v]"
    using r(2) x by (simp add: store_def)
  have s: "set_cell b x y v = Inr b'"
    using r(1) st by (simp add: set_cell_def b'_def)
  have len: "length b' = length b" by (simp add: b'_def)
  have ylen: "nat y < length b" using assms(1) y by (auto simp: wf_board_def)
  have xlen: "nat x < length (b ! nat y)" using r(2) x by auto
  have w: "wf_board b'"
    unfolding wf_board_def list_all_length
  proof (intro conjI allI impI)
    show "int (length b') = N" using assms(1) len by (simp add: wf_board_def)
  next
    fix n assume n: "n < length b'"
    show "int (length (b' ! n)) = N"
      using n assms(1) ylen by (cases "n = nat y") (auto simp: b'_def wf_board_def list_all_length)
  next
    fix n m assume n: "n < length b'" and m: "m < length (b' ! n)"
    show "b' ! n ! m = Some 0 \<or> b' ! n ! m = Some 1"
    proof (cases "n = nat y")
      case True
      then have e: "b' ! n = (b ! nat y)[nat x := Some v]" using ylen by (simp add: b'_def)
      show ?thesis
      proof (cases "m = nat x")
        case True
        with e xlen assms(3) show ?thesis by auto
      next
        case False
        with e m r(3) show ?thesis by (auto simp: list_all_length)
      qed
    next
      case False
      then have "b' ! n = b ! n" by (simp add: b'_def)
      with n m len assms(1) show ?thesis by (auto simp: wf_board_def list_all_length)
    qed
  qed
  have g: "get_cell b' x' y' = (if x' = x \<and> y' = y then Inr (Some v) else get_cell b x' y')" for x' y'
  proof (cases "0 \<le> y' \<and> y' < int (length b)")
    case False
    then have "elem b' y' = None" "elem b y' = None" using len by (auto simp: elem_def)
    moreover from False y ylen have "y' \<noteq> y" by auto
    ultimately show ?thesis by (simp add: get_cell_def)
  next
    case True
    then have eb: "elem b' y' = Some (b' ! nat y')" "elem b y' = Some (b ! nat y')"
      using len by (auto simp: elem_def)
    show ?thesis
    proof (cases "y' = y")
      case False
      with True y have "nat y' \<noteq> nat y" by auto
      then have "b' ! nat y' = b ! nat y'" by (simp add: b'_def)
      with eb False show ?thesis by (simp add: get_cell_def)
    next
      case yy: True
      then have e: "b' ! nat y' = (b ! nat y)[nat x := Some v]" using ylen by (simp add: b'_def)
      show ?thesis
      proof (cases "x' = x")
        case True
        with e eb yy xlen x show ?thesis by (simp add: get_cell_def elem_def)
      next
        case False
        then have "elem ((b ! nat y)[nat x := Some v]) x' = elem (b ! nat y) x'"
          using x by (auto simp: elem_def)
        with e eb yy False show ?thesis by (simp add: get_cell_def)
      qed
    qed
  qed
  from s w g show ?thesis by blast
qed

lemma set_cell_same:
  assumes "wf_board b" "inside x y" "get_cell b x y = Inr (Some v)"
  shows "set_cell b x y v = Inr b"
proof -
  from assms have y: "0 \<le> y" "y < N" and x: "0 \<le> x" "x < N"
    by (auto simp: inside_def)
  note r = wf_board_row [OF assms(1) y]
  have xlen: "nat x < length (b ! nat y)" using r(2) x by auto
  have "elem (b ! nat y) x = Some (b ! nat y ! nat x)" using r(2) x by (simp add: elem_def)
  with assms(3) r(1) have "b ! nat y ! nat x = Some v" by (simp add: get_cell_def)
  then have "(b ! nat y)[nat x := Some v] = b ! nat y"
    by (metis list_update_id)
  moreover have "store (b ! nat y) x v = (b ! nat y)[nat x := Some v]"
    using r(2) x by (simp add: store_def)
  ultimately show ?thesis using r(1) by (simp add: set_cell_def)
qed

lemma set_cell_twice:
  assumes "wf_board b" "inside x y" "set_cell b x y v = Inr b1"
  shows "set_cell b1 x y w = set_cell b x y w"
proof -
  from assms have y: "0 \<le> y" "y < N" and x: "0 \<le> x" "x < N"
    by (auto simp: inside_def)
  note r = wf_board_row [OF assms(1) y]
  have ylen: "nat y < length b" using assms(1) y by (auto simp: wf_board_def)
  have st: "store (b ! nat y) x v = (b ! nat y)[nat x := Some v]"
    using r(2) x by (simp add: store_def)
  with assms(3) r(1) have b1: "b1 = b[nat y := (b ! nat y)[nat x := Some v]]"
    by (simp add: set_cell_def)
  have e1: "elem b1 y = Some ((b ! nat y)[nat x := Some v])"
    using b1 ylen y by (simp add: elem_def)
  have "store ((b ! nat y)[nat x := Some v]) x w = (b ! nat y)[nat x := Some w]"
    using r(2) x by (simp add: store_def)
  moreover have "store (b ! nat y) x w = (b ! nat y)[nat x := Some w]"
    using r(2) x by (simp add: store_def)
  ultimately show ?thesis using e1 r(1) b1 by (simp add: set_cell_def)
qed

section \<open>The evaluation returns, and returns the board it was given\<close>

declare count_run.simps [simp del]

lemma count_run_total:
  assumes "wf_board b" "sx \<noteq> 0 \<or> sy \<noteq> 0"
  shows "\<exists>n. count_run b rx ry sx sy l = Inr n \<and> l \<le> n"
  using assms
proof (induction b rx ry sx sy l rule: count_run.induct)
  case (1 b rx ry sx sy l)
  show ?case
  proof (cases "inside rx ry")
    case False
    then show ?thesis by (subst count_run.simps) simp
  next
    case True
    from get_cell_wf [OF "1.prems"(1) True]
    show ?thesis
    proof
      assume g: "get_cell b rx ry = Inr (Some 0)"
      with True show ?thesis by (subst count_run.simps) simp
    next
      assume g: "get_cell b rx ry = Inr (Some 1)"
      from "1.prems"(2) have nz: "\<not> (sx = 0 \<and> sy = 0)" by simp
      from "1.IH" [OF _ g _ nz "1.prems"] True
      obtain n where "count_run b (rx + sx) (ry + sy) sx sy (l + 1) = Inr n" "l + 1 \<le> n"
        by auto
      with True g nz show ?thesis by (subst count_run.simps) auto
    qed
  qed
qed

lemma DIRS_nonzero: "(dx, dy) \<in> set DIRS \<Longrightarrow> dx \<noteq> 0 \<or> dy \<noteq> 0"
  by (auto simp: DIRS_def)

lemma axis_step_total:
  assumes "wf_board b" "d \<in> set DIRS"
  shows "\<exists>l r. 0 \<le> l \<and> 0 \<le> r \<and>
           count_run b (x - fst d) (y - snd d) (- fst d) (- snd d) 0 = Inr l \<and>
           count_run b (x + fst d) (y + snd d) (fst d) (snd d) 0 = Inr r \<and>
           axis_step b x y ex d a sg = Inr (axis_windows ex x y (fst d) (snd d) a l r sg)"
proof -
  obtain dx dy where d: "d = (dx, dy)" by (cases d)
  with assms(2) have nz: "dx \<noteq> 0 \<or> dy \<noteq> 0" by (auto dest: DIRS_nonzero)
  then have nz': "- dx \<noteq> 0 \<or> - dy \<noteq> 0" by simp
  from count_run_total [OF assms(1) nz', of "x - dx" "y - dy" 0]
  obtain l where l: "count_run b (x - dx) (y - dy) (- dx) (- dy) 0 = Inr l" "0 \<le> l" by auto
  from count_run_total [OF assms(1) nz, of "x + dx" "y + dy" 0]
  obtain r where r: "count_run b (x + dx) (y + dy) dx dy 0 = Inr r" "0 \<le> r" by auto
  from l r d show ?thesis by (simp add: axis_step_def)
qed

lemma forEach_dirs_total:
  assumes "wf_board b" "set (map fst ds) \<subseteq> set DIRS"
  shows "\<exists>sg'. forEach_dirs b x y ex ds sg = Inr sg'"
  using assms(2)
proof (induction ds arbitrary: sg)
  case Nil
  then show ?case by simp
next
  case (Cons p ds)
  obtain d a where p: "p = (d, a)" by (cases p)
  with Cons.prems have d: "d \<in> set DIRS" and ds: "set (map fst ds) \<subseteq> set DIRS" by auto
  from axis_step_total [OF assms(1) d, of x y ex a sg]
  obtain sg1 where "axis_step b x y ex d a sg = Inr sg1" by blast
  with Cons.IH [OF ds, of sg1] p show ?case by simp
qed

lemma zip_DIRS_fst: "set (map fst (zip DIRS [0 ..< length DIRS])) \<subseteq> set DIRS"
  by (simp add: DIRS_def upt_rec)

lemma linesCreatedIfPlaced_wf:
  assumes "wf_board b"
  shows "\<exists>r. linesCreatedIfPlaced b x y ex = Inr (b, r) \<and> count r = length (segs r)"
proof (cases "inside x y")
  case False
  then show ?thesis by (simp add: linesCreatedIfPlaced_def)
next
  case True
  from get_cell_wf [OF assms True] show ?thesis
  proof
    assume "get_cell b x y = Inr (Some 1)"
    with True show ?thesis by (simp add: linesCreatedIfPlaced_def)
  next
    assume g: "get_cell b x y = Inr (Some 0)"
    from set_cell_wf [OF assms True, of 1]
    obtain b1 where b1: "set_cell b x y 1 = Inr b1" "wf_board b1" by auto
    from forEach_dirs_total [OF b1(2) zip_DIRS_fst]
    obtain sg where sg: "forEach_dirs b1 x y ex (zip DIRS [0 ..< length DIRS]) [] = Inr sg"
      by blast
    have "set_cell b1 x y 0 = set_cell b x y 0"
      by (rule set_cell_twice [OF assms True b1(1)])
    also have "\<dots> = Inr b" by (rule set_cell_same [OF assms True g])
    finally have "set_cell b1 x y 0 = Inr b" .
    with True g b1 sg show ?thesis by (simp add: linesCreatedIfPlaced_def)
  qed
qed


text \<open>
  C10. For every coordinate outside the board, \<^verbatim>\<open>linesCreatedIfPlaced\<close> returns
  count 0 and no window, raises nothing and leaves the board as it is. This holds for every
  board value, also one with no row at all, where reading any cell would raise: no cell is
  read or written.
\<close>

theorem out_of_bounds_evaluation:
  "\<not> inside x y \<Longrightarrow>
     linesCreatedIfPlaced b x y existingSegments = Inr (b, \<lparr> count = 0, segs = [] \<rparr>)"
  by (simp add: linesCreatedIfPlaced_def)

theorem out_of_bounds_evaluation_witness:
  "\<not> inside (-1) 5 \<and> get_cell [] (-1) 5 = Inl TypeError \<and>
   linesCreatedIfPlaced [] (-1) 5 [] = Inr ([], \<lparr> count = 0, segs = [] \<rparr>)"
  using out_of_bounds_evaluation [of "-1" 5 "[]" "[]"]
  by (simp add: inside_def get_cell_def elem_def)

text \<open>
  C5. On every board of the data model, for every ledger and every cell,
  \<^verbatim>\<open>linesCreatedIfPlaced\<close> returns a result and the board it returns is the board it
  was given: the probe written at \<open>(x, y)\<close> is taken out again. A second call on the board
  left by the first, with the same ledger and cell, returns the same board and the same
  \<^verbatim>\<open>{count, segs}\<close>. The ledger is only ever read: \<^verbatim>\<open>overlapsExisting\<close> and
  \<^verbatim>\<open>pushIfUnique\<close> have no assignment to it, so the model has no ledger to return.
\<close>

theorem evaluation_pure:
  assumes "wf_board b"
  shows "\<exists>r. linesCreatedIfPlaced b x y existingSegments = Inr (b, r) \<and>
           (\<forall>b1 r1. linesCreatedIfPlaced b x y existingSegments = Inr (b1, r1) \<longrightarrow>
              linesCreatedIfPlaced b1 x y existingSegments = Inr (b, r))"
proof -
  from linesCreatedIfPlaced_wf [OF assms, of x y existingSegments]
  obtain r where r: "linesCreatedIfPlaced b x y existingSegments = Inr (b, r)" by blast
  then have "\<forall>b1 r1. linesCreatedIfPlaced b x y existingSegments = Inr (b1, r1) \<longrightarrow>
              linesCreatedIfPlaced b1 x y existingSegments = Inr (b, r)"
    by auto
  with r show ?thesis by blast
qed

lemma wf_scenarioB_board: "wf_board scenarioB_board"
  by code_simp

theorem evaluation_pure_witness:
  "wf_board scenarioB_board \<and>
   (\<exists>r. linesCreatedIfPlaced scenarioB_board 10 8 [] = Inr (scenarioB_board, r) \<and> count r = 2)"
proof -
  from evaluation_pure [OF wf_scenarioB_board, of 10 8 "[]"]
  obtain r where r: "linesCreatedIfPlaced scenarioB_board 10 8 [] = Inr (scenarioB_board, r)"
    by blast
  have "map_sum id (\<lambda>p. count (snd p)) (linesCreatedIfPlaced scenarioB_board 10 8 []) = Inr 2"
    by code_simp
  with r have "count r = 2" by simp
  with r wf_scenarioB_board show ?thesis by blast
qed

section \<open>Accepted windows are fresh and contain the placed cell\<close>

lemma overlapsExisting_iff:
  "overlapsExisting ex w \<longleftrightarrow>
     (\<exists>e \<in> set ex. axisId e = axisId w \<and> set (cells e) \<inter> set (cells w) \<noteq> {})"
proof -
  have h: "(\<exists>c \<in> set (cells w). \<exists>ec \<in> set (cells e). fst ec = fst c \<and> snd ec = snd c)
          \<longleftrightarrow> set (cells e) \<inter> set (cells w) \<noteq> {}" for e
    by (auto simp: prod_eq_iff)
  show ?thesis by (simp add: overlapsExisting_def list_ex_iff h)
qed

lemma upto_0_4: "[0 .. 4 :: int] = [0, 1, 2, 3, 4]"
  by (simp add: upto_rec1)

lemma window_axisId [simp]: "axisId (window x y dx dy a tkl tkr) = a"
  by (simp add: window_def Let_def)

lemma window_cells:
  "cells (window x y dx dy a tkl tkr) =
     map (\<lambda>k. (x - dx * tkl + dx * k, y - dy * tkl + dy * k)) [0, 1, 2, 3, 4]"
  by (simp add: window_def Let_def upto_0_4)

lemma window_contains:
  assumes "0 \<le> tkl" "tkl \<le> 4"
  shows "(x, y) \<in> set (cells (window x y dx dy a tkl tkr))"
proof -
  from assms have "tkl = 0 \<or> tkl = 1 \<or> tkl = 2 \<or> tkl = 3 \<or> tkl = 4" by arith
  then show ?thesis by (auto simp: window_cells)
qed

lemma pushIfUnique_fresh:
  assumes "list_all (fresh_at ex x y) sg" "(x, y) \<in> set (cells cand)"
  shows "list_all (fresh_at ex x y) (pushIfUnique ex sg cand)"
  using assms by (simp add: pushIfUnique_def fresh_at_def)

lemma axis_windows_fresh:
  assumes "list_all (fresh_at ex x y) sg" "0 \<le> l" "0 \<le> r"
  shows "list_all (fresh_at ex x y) (axis_windows ex x y dx dy a l r sg)"
proof -
  have A: "(x, y) \<in> set (cells (window x y dx dy a (min 4 l) tkr))" for tkr
    using assms(2) by (intro window_contains) auto
  have B: "(x, y) \<in> set (cells (window x y dx dy a (4 - min 4 r) tkr))" for tkr
    using assms(3) by (intro window_contains) auto
  show ?thesis
    unfolding axis_windows_def Let_def
    by (intro pushIfUnique_fresh assms(1) A B | simp only: split: if_split | intro conjI impI)+
qed

lemma count_run_ge: "count_run b rx ry sx sy l = Inr n \<Longrightarrow> l \<le> n"
proof (induction b rx ry sx sy l rule: count_run.induct)
  case (1 b rx ry sx sy l)
  show ?case
  proof (cases "inside rx ry")
    case False
    with "1.prems" show ?thesis by (subst (asm) count_run.simps) simp
  next
    case True
    show ?thesis
    proof (cases "get_cell b rx ry")
      case (Inl e)
      with True "1.prems" show ?thesis by (subst (asm) count_run.simps) simp
    next
      case (Inr v)
      show ?thesis
      proof (cases "v = Some 1 \<and> \<not> (sx = 0 \<and> sy = 0)")
        case False
        with True Inr "1.prems" show ?thesis
          by (subst (asm) count_run.simps) (auto split: if_splits)
      next
        case t: True
        with True Inr "1.prems" have "count_run b (rx + sx) (ry + sy) sx sy (l + 1) = Inr n"
          by (subst (asm) count_run.simps) (auto split: if_splits)
        from "1.IH" [OF _ Inr _ _ this] True t show ?thesis by auto
      qed
    qed
  qed
qed

lemma axis_step_fresh:
  assumes "axis_step b x y ex d a sg = Inr sg'" "list_all (fresh_at ex x y) sg"
  shows "list_all (fresh_at ex x y) sg'"
proof -
  obtain dx dy where d: "d = (dx, dy)" by (cases d)
  from assms(1) d obtain l r where
    l: "count_run b (x - dx) (y - dy) (- dx) (- dy) 0 = Inr l" and
    r: "count_run b (x + dx) (y + dy) dx dy 0 = Inr r" and
    s: "sg' = axis_windows ex x y dx dy a l r sg"
    by (auto simp: axis_step_def split: sum.splits)
  from count_run_ge [OF l] count_run_ge [OF r] have "0 \<le> l" "0 \<le> r" by auto
  with s assms(2) show ?thesis by (simp add: axis_windows_fresh)
qed

lemma forEach_dirs_fresh:
  assumes "forEach_dirs b x y ex ds sg = Inr sg'" "list_all (fresh_at ex x y) sg"
  shows "list_all (fresh_at ex x y) sg'"
  using assms
proof (induction ds arbitrary: sg)
  case Nil
  then show ?case by simp
next
  case (Cons p ds)
  obtain d a where p: "p = (d, a)" by (cases p)
  from Cons.prems(1) p obtain sg1 where
    s1: "axis_step b x y ex d a sg = Inr sg1" and
    s2: "forEach_dirs b x y ex ds sg1 = Inr sg'"
    by (auto split: sum.splits)
  from axis_step_fresh [OF s1 Cons.prems(2)] have "list_all (fresh_at ex x y) sg1" .
  from Cons.IH [OF s2 this] show ?case .
qed

lemma linesCreatedIfPlaced_fresh:
  assumes "linesCreatedIfPlaced b x y ex = Inr (b', r)"
  shows "list_all (fresh_at ex x y) (segs r) \<and> count r = length (segs r)"
proof (cases "inside x y \<and> get_cell b x y = Inr (Some 0)")
  case False
  with assms have "r = \<lparr> count = 0, segs = [] \<rparr>"
    by (auto simp: linesCreatedIfPlaced_def split: sum.splits if_splits)
  then show ?thesis by simp
next
  case True
  with assms obtain b1 sg where
    f: "forEach_dirs b1 x y ex (zip DIRS [0 ..< length DIRS]) [] = Inr sg" and
    r: "r = \<lparr> count = length sg, segs = sg \<rparr>"
    by (auto simp: linesCreatedIfPlaced_def split: sum.splits if_splits)
  from forEach_dirs_fresh [OF f] r show ?thesis by simp
qed

section \<open>What a click appends to the ledger\<close>

lemma handleCellClick_segments:
  assumes "handleCellClick s x y = Inr s'"
  shows "\<exists>new. segments s' = segments s @ new \<and> list_all (fresh_at (segments s) x y) new"
proof (cases "gameOver s")
  case True
  with assms have "s' = s" by (simp add: handleCellClick_def)
  then show ?thesis by simp
next
  case False
  show ?thesis
  proof (cases "get_cell (board s) x y = Inr (Some 0)")
    case f: False
    with False assms have "s' = s"
      by (auto simp: handleCellClick_def split: sum.splits if_splits)
    then show ?thesis by simp
  next
    case True
    with False assms obtain b r where
      l: "linesCreatedIfPlaced (board s) x y (segments s) = Inr (b, r)"
      by (auto simp: handleCellClick_def split: sum.splits)
    note fr = linesCreatedIfPlaced_fresh [OF l]
    show ?thesis
    proof (cases "count r \<le> 0")
      case t: True
      with False True l assms have "segments s' = segments s"
        by (auto simp: handleCellClick_def)
      then show ?thesis by simp
    next
      case f: False
      with False True l assms have "segments s' = segments s @ segs r"
        by (auto simp: handleCellClick_def split: sum.splits)
      with fr show ?thesis by blast
    qed
  qed
qed

lemma render_segments: "render s = Inr s' \<Longrightarrow> segments s' = segments s"
  by (auto simp: render_def split: sum.splits if_splits)

lemma click_segments:
  "\<exists>new. segments (click s c) = segments s @ new \<and>
     list_all (fresh_at (segments s) (fst c) (snd c)) new"
proof (cases "handleCellClick s (fst c) (snd c)")
  case (Inl e)
  then have "click s c = s" by (simp add: click_def)
  then show ?thesis by simp
next
  case (Inr s1)
  then have "segments (click s c) = segments s1"
    by (auto simp: click_def split: sum.splits dest: render_segments)
  with handleCellClick_segments [OF Inr] show ?thesis by simp
qed

lemma click_commit:
  "segments (click s c) = segments s @ drop (length (segments s)) (segments (click s c))"
  "list_all (fresh_at (segments s) (fst c) (snd c))
     (drop (length (segments s)) (segments (click s c)))"
  using click_segments [of s c] by auto

lemma fresh_at_disjoint:
  assumes "fresh_at ex x y w" "e \<in> set ex" "axisId e = axisId w"
  shows "set (cells e) \<inter> set (cells w) = {}"
  using assms by (auto simp: fresh_at_def overlapsExisting_iff)

lemma commits_length [simp]: "length (commits s cs) = length cs"
  by (induction cs arbitrary: s) simp_all

lemma play_segments: "segments (play s cs) = segments s @ concat (commits s cs)"
proof (induction cs arbitrary: s)
  case Nil
  then show ?case by simp
next
  case (Cons c cs)
  have "segments (play (click s c) cs) = segments (click s c) @ concat (commits (click s c) cs)"
    by (rule Cons.IH)
  also have "segments (click s c) = segments s @ drop (length (segments s)) (segments (click s c))"
    by (rule click_commit(1))
  finally show ?case by simp
qed

lemma commits_contains:
  assumes "j < length cs" "w' \<in> set (commits s cs ! j)"
  shows "cs ! j \<in> set (cells w')"
  using assms
proof (induction cs arbitrary: s j)
  case Nil
  then show ?case by simp
next
  case (Cons c cs)
  show ?case
  proof (cases j)
    case 0
    with Cons.prems have "w' \<in> set (drop (length (segments s)) (segments (click s c)))" by simp
    with click_commit(2) [of s c] have "fresh_at (segments s) (fst c) (snd c) w'"
      by (auto simp: list_all_iff)
    with 0 show ?thesis by (simp add: fresh_at_def)
  next
    case (Suc j')
    with Cons.prems Cons.IH [of j' "click s c"] show ?thesis by simp
  qed
qed

lemma commits_fresh:
  assumes "j < length cs" "w' \<in> set (commits s cs ! j)"
    "e \<in> set (segments s)" "axisId e = axisId w'"
  shows "set (cells e) \<inter> set (cells w') = {}"
  using assms
proof (induction cs arbitrary: s j)
  case Nil
  then show ?case by simp
next
  case (Cons c cs)
  show ?case
  proof (cases j)
    case 0
    with Cons.prems have "w' \<in> set (drop (length (segments s)) (segments (click s c)))" by simp
    with click_commit(2) [of s c] have "fresh_at (segments s) (fst c) (snd c) w'"
      by (auto simp: list_all_iff)
    from fresh_at_disjoint [OF this Cons.prems(3,4)] show ?thesis .
  next
    case (Suc j')
    from Cons.prems(3) click_commit(1) [of s c] have e: "e \<in> set (segments (click s c))"
      by (metis Un_iff set_append)
    from Suc Cons.prems have "j' < length cs" "w' \<in> set (commits (click s c) cs ! j')" by auto
    from Cons.IH [OF this e Cons.prems(4)] show ?thesis .
  qed
qed

lemma commits_disjoint:
  assumes "i < j" "j < length cs" "w \<in> set (commits s cs ! i)" "w' \<in> set (commits s cs ! j)"
    "axisId w = axisId w'"
  shows "set (cells w) \<inter> set (cells w') = {}"
  using assms
proof (induction cs arbitrary: s i j)
  case Nil
  then show ?case by simp
next
  case (Cons c cs)
  from Cons.prems(1) obtain j' where j: "j = Suc j'" by (cases j) auto
  with Cons.prems have j': "j' < length cs" "w' \<in> set (commits (click s c) cs ! j')" by auto
  show ?case
  proof (cases i)
    case 0
    with Cons.prems have "w \<in> set (drop (length (segments s)) (segments (click s c)))" by simp
    with click_commit(1) [of s c] have "w \<in> set (segments (click s c))"
      by (metis Un_iff set_append)
    from commits_fresh [OF j' this Cons.prems(5)] show ?thesis .
  next
    case (Suc i')
    with Cons.prems j have "i' < j'" "w \<in> set (commits (click s c) cs ! i')" by auto
    from Cons.IH [OF this(1) j'(1) this(2) j'(2) Cons.prems(5)] show ?thesis .
  qed
qed

section \<open>The two enumerators on well-formed boards\<close>

lemma legal_at_iff:
  assumes "wf_board b"
  shows "legal_at b ex x y \<longleftrightarrow>
     get_cell b x y = Inr (Some 0) \<and>
     (\<exists>r. linesCreatedIfPlaced b x y ex = Inr (b, r) \<and> 0 < count r)"
  using linesCreatedIfPlaced_wf [OF assms, of x y ex] by (auto simp: legal_at_def)

lemma get_cell_zero_inside:
  assumes "wf_board b" "get_cell b x y = Inr (Some 0)"
  shows "inside x y"
  using get_cell_outside [OF assms(1), of x y] assms(2) by auto

lemma findAnyLegalMove_x_wf:
  assumes "wf_board b"
  shows "findAnyLegalMove_x b ex y xs = Inr (b, list_ex (\<lambda>x. legal_at b ex x y) xs) \<or>
         (\<exists>x \<in> set xs. get_cell b x y = Inl TypeError)"
proof (induction xs)
  case Nil
  then show ?case by simp
next
  case (Cons x xs)
  show ?case
  proof (cases "get_cell b x y")
    case (Inl e)
    then have "e = TypeError" using get_cell_wf [OF assms, of x y] get_cell_outside [OF assms, of x y]
      by (cases "inside x y") auto
    with Inl show ?thesis by simp
  next
    case (Inr v)
    show ?thesis
    proof (cases "v = Some 0")
      case False
      with Inr have "\<not> legal_at b ex x y" by (simp add: legal_at_def)
      with Inr False Cons.IH show ?thesis by auto
    next
      case True
      from linesCreatedIfPlaced_wf [OF assms, of x y ex]
      obtain r where r: "linesCreatedIfPlaced b x y ex = Inr (b, r)" by blast
      with Inr True have "legal_at b ex x y \<longleftrightarrow> 0 < count r" by (simp add: legal_at_def)
      with Inr True r Cons.IH show ?thesis by auto
    qed
  qed
qed

lemma upto_inside:
  assumes "x \<in> set [0 .. N - 1]" "y \<in> set [0 .. N - 1]"
  shows "inside x y"
  using assms by (auto simp: inside_def)

lemma inside_upto: "inside x y \<longleftrightarrow> x \<in> set [0 .. N - 1] \<and> y \<in> set [0 .. N - 1]"
  by (auto simp: inside_def)

lemma ex_inside_upto:
  "(\<exists>y \<in> set [0 .. N - 1]. \<exists>x \<in> set [0 .. N - 1]. P x y) \<longleftrightarrow> (\<exists>x y. inside x y \<and> P x y)"
  unfolding inside_upto by blast

lemma no_TypeError_inside:
  assumes "wf_board b" "inside x y"
  shows "get_cell b x y \<noteq> Inl TypeError"
  using get_cell_wf [OF assms] by auto

lemma findAnyLegalMove_y_wf:
  assumes "wf_board b" "set ys \<subseteq> set [0 .. N - 1]"
  shows "findAnyLegalMove_y b ex ys =
     Inr (b, list_ex (\<lambda>y. list_ex (\<lambda>x. legal_at b ex x y) [0 .. N - 1]) ys)"
  using assms(2)
proof (induction ys)
  case Nil
  then show ?case by simp
next
  case (Cons y ys)
  then have y: "y \<in> set [0 .. N - 1]" and ys: "set ys \<subseteq> set [0 .. N - 1]" by auto
  have "\<not> (\<exists>x \<in> set [0 .. N - 1]. get_cell b x y = Inl TypeError)"
    using no_TypeError_inside [OF assms(1) upto_inside [OF _ y]] by blast
  with findAnyLegalMove_x_wf [OF assms(1), of ex y "[0 .. N - 1]"]
  have "findAnyLegalMove_x b ex y [0 .. N - 1] =
      Inr (b, list_ex (\<lambda>x. legal_at b ex x y) [0 .. N - 1])" by blast
  with Cons.IH [OF ys] show ?case by simp
qed

lemma findAnyLegalMove_wf:
  assumes "wf_board b"
  shows "findAnyLegalMove b ex =
     Inr (b, \<exists>x y. inside x y \<and> legal_at b ex x y)"
proof -
  have "list_ex (\<lambda>y. list_ex (\<lambda>x. legal_at b ex x y) [0 .. N - 1]) [0 .. N - 1]
          \<longleftrightarrow> (\<exists>x y. inside x y \<and> legal_at b ex x y)"
    unfolding list_ex_iff by (rule ex_inside_upto)
  with findAnyLegalMove_y_wf [OF assms subset_refl, of ex] show ?thesis
    by (simp add: findAnyLegalMove_def)
qed

lemma getAllLegalMoves_x_wf:
  assumes "wf_board b"
  shows "getAllLegalMoves_x b ex y xs out =
           Inr (b, out @ map (\<lambda>x. \<lparr> mx = x, my = y, mcount = count_at b ex x y \<rparr>)
                           (filter (\<lambda>x. legal_at b ex x y) xs)) \<or>
         (\<exists>x \<in> set xs. get_cell b x y = Inl TypeError)"
proof (induction xs arbitrary: out)
  case Nil
  then show ?case by simp
next
  case (Cons x xs)
  show ?case
  proof (cases "get_cell b x y")
    case (Inl e)
    then have "e = TypeError" using get_cell_wf [OF assms, of x y] get_cell_outside [OF assms, of x y]
      by (cases "inside x y") auto
    with Inl show ?thesis by simp
  next
    case (Inr v)
    show ?thesis
    proof (cases "v = Some 0")
      case False
      with Inr have "\<not> legal_at b ex x y" by (simp add: legal_at_def)
      with Inr False Cons.IH [of out] show ?thesis by auto
    next
      case True
      from linesCreatedIfPlaced_wf [OF assms, of x y ex]
      obtain r where r: "linesCreatedIfPlaced b x y ex = Inr (b, r)" by blast
      with Inr True have l: "legal_at b ex x y \<longleftrightarrow> 0 < count r" "count_at b ex x y = count r"
        by (simp_all add: legal_at_def count_at_def)
      show ?thesis
      proof (cases "0 < count r")
        case c: True
        with Inr True r l Cons.IH [of "out @ [\<lparr> mx = x, my = y, mcount = count r \<rparr>]"]
        show ?thesis by auto
      next
        case c: False
        with Inr True r l Cons.IH [of out] show ?thesis by auto
      qed
    qed
  qed
qed

lemma getAllLegalMoves_y_wf:
  assumes "wf_board b" "set ys \<subseteq> set [0 .. N - 1]"
  shows "getAllLegalMoves_y b ex ys out =
     Inr (b, out @ concat (map (\<lambda>y. map (\<lambda>x. \<lparr> mx = x, my = y, mcount = count_at b ex x y \<rparr>)
                                  (filter (\<lambda>x. legal_at b ex x y) [0 .. N - 1])) ys))"
  using assms(2)
proof (induction ys arbitrary: out)
  case Nil
  then show ?case by simp
next
  case (Cons y ys)
  then have y: "y \<in> set [0 .. N - 1]" and ys: "set ys \<subseteq> set [0 .. N - 1]" by auto
  have "\<not> (\<exists>x \<in> set [0 .. N - 1]. get_cell b x y = Inl TypeError)"
    using no_TypeError_inside [OF assms(1) upto_inside [OF _ y]] by blast
  with getAllLegalMoves_x_wf [OF assms(1), of ex y "[0 .. N - 1]" out]
  have "getAllLegalMoves_x b ex y [0 .. N - 1] out =
      Inr (b, out @ map (\<lambda>x. \<lparr> mx = x, my = y, mcount = count_at b ex x y \<rparr>)
                           (filter (\<lambda>x. legal_at b ex x y) [0 .. N - 1]))" by blast
  with Cons.IH [OF ys] show ?case by simp
qed

lemma getAllLegalMoves_wf:
  assumes "wf_board b"
  shows "\<exists>out. getAllLegalMoves b ex = Inr (b, out) \<and>
           (out \<noteq> [] \<longleftrightarrow> (\<exists>x y. inside x y \<and> legal_at b ex x y))"
proof -
  let ?out = "concat (map (\<lambda>y. map (\<lambda>x. \<lparr> mx = x, my = y, mcount = count_at b ex x y \<rparr>)
                                  (filter (\<lambda>x. legal_at b ex x y) [0 .. N - 1])) [0 .. N - 1])"
  have "?out \<noteq> [] \<longleftrightarrow> (\<exists>y \<in> set [0 .. N - 1]. \<exists>x \<in> set [0 .. N - 1]. legal_at b ex x y)"
    by (auto simp: filter_empty_conv)
  also have "\<dots> \<longleftrightarrow> (\<exists>x y. inside x y \<and> legal_at b ex x y)"
    by (rule ex_inside_upto)
  finally have "?out \<noteq> [] \<longleftrightarrow> (\<exists>x y. inside x y \<and> legal_at b ex x y)" .
  with getAllLegalMoves_y_wf [OF assms subset_refl, of ex "[]"] show ?thesis
    by (simp add: getAllLegalMoves_def)
qed

section \<open>The session keeps the board well-formed\<close>

lemma seed_is_cross: "seedInitialCross makeEmptyBoard = Inr cross_board"
  by code_simp

lemma wf_cross_board: "wf_board cross_board"
  by code_simp

lemma initial_game_eq: "initial_game = Inr new_game"
  by (simp add: initial_game_def seed_is_cross new_game_def)

lemma render_wf:
  assumes "wf_board (board s)"
  shows "\<exists>s'. render s = Inr s' \<and> board s' = board s \<and> segments s' = segments s \<and>
           score s' = score s \<and> moves s' = moves s \<and>
           (gameOver s \<longrightarrow> gameOver s')"
  using findAnyLegalMove_wf [OF assms, of "segments s"]
  by (auto simp: render_def)

lemma handleCellClick_wf:
  assumes "wf_board (board s)" "handleCellClick s x y = Inr s'"
  shows "wf_board (board s')"
proof (cases "gameOver s \<or> get_cell (board s) x y \<noteq> Inr (Some 0)")
  case True
  with assms(2) have "s' = s"
    by (auto simp: handleCellClick_def split: sum.splits if_splits)
  with assms(1) show ?thesis by simp
next
  case False
  then have g: "\<not> gameOver s" "get_cell (board s) x y = Inr (Some 0)" by auto
  from get_cell_zero_inside [OF assms(1) g(2)] have i: "inside x y" .
  from linesCreatedIfPlaced_wf [OF assms(1), of x y "segments s"]
  obtain r where r: "linesCreatedIfPlaced (board s) x y (segments s) = Inr (board s, r)" by blast
  from set_cell_wf [OF assms(1) i, of 1]
  obtain b' where b': "set_cell (board s) x y 1 = Inr b'" "wf_board b'" by auto
  from g r b' assms show ?thesis
    by (auto simp: handleCellClick_def clone_id split: if_splits)
qed

lemma click_wf:
  assumes "wf_board (board s)"
  shows "wf_board (board (click s c))"
proof (cases "handleCellClick s (fst c) (snd c)")
  case (Inl e)
  with assms show ?thesis by (simp add: click_def)
next
  case (Inr s1)
  from handleCellClick_wf [OF assms Inr] have w: "wf_board (board s1)" .
  from render_wf [OF w] obtain s2 where "render s1 = Inr s2" "board s2 = board s1" by blast
  with Inr w show ?thesis by (simp add: click_def)
qed

lemma reachable_wf: "reachable s \<Longrightarrow> wf_board (board s)"
proof (induction rule: reachable.induct)
  case (start s0 s)
  from start(1) have "board s0 = cross_board"
    by (auto simp: initial_game_eq new_game_def)
  with render_wf [of s0] start(2) wf_cross_board show ?case by auto
next
  case (step s c)
  from step.IH show ?case by (rule click_wf)
next
  case (restart s s1 s')
  from restart(2) have "board s1 = cross_board"
    by (auto simp: reset_def seed_is_cross)
  with render_wf [of s1] restart(3) wf_cross_board show ?case by auto
qed

section \<open>Clicks when no legal move is left\<close>

lemma handleCellClick_terminal:
  assumes "wf_board (board s)" "findAnyLegalMove (board s) (segments s) = Inr (board s, False)"
  shows "handleCellClick s x y = Inl TypeError \<or>
         (\<exists>s'. handleCellClick s x y = Inr s' \<and> board s' = board s \<and> segments s' = segments s \<and>
            score s' = score s \<and> moves s' = moves s)"
proof (cases "gameOver s")
  case True
  then show ?thesis by (simp add: handleCellClick_def)
next
  case False
  show ?thesis
  proof (cases "get_cell (board s) x y")
    case (Inl e)
    then have "e = TypeError"
      using get_cell_wf [OF assms(1), of x y] get_cell_outside [OF assms(1), of x y]
      by (cases "inside x y") auto
    with Inl False show ?thesis by (simp add: handleCellClick_def)
  next
    case (Inr v)
    show ?thesis
    proof (cases "v = Some 0")
      case f: False
      with Inr False show ?thesis by (simp add: handleCellClick_def)
    next
      case True
      with Inr have g: "get_cell (board s) x y = Inr (Some 0)" by simp
      from get_cell_zero_inside [OF assms(1) g] have i: "inside x y" .
      from assms(2) findAnyLegalMove_wf [OF assms(1), of "segments s"] i
      have "\<not> legal_at (board s) (segments s) x y" by auto
      moreover from linesCreatedIfPlaced_wf [OF assms(1), of x y "segments s"]
      obtain r where r: "linesCreatedIfPlaced (board s) x y (segments s) = Inr (board s, r)"
        by blast
      ultimately have "count r = 0" using g by (simp add: legal_at_def)
      with False g r show ?thesis by (simp add: handleCellClick_def)
    qed
  qed
qed

lemma click_terminal:
  assumes "wf_board (board s)" "findAnyLegalMove (board s) (segments s) = Inr (board s, False)"
  shows "board (click s c) = board s \<and> segments (click s c) = segments s \<and>
         score (click s c) = score s \<and> moves (click s c) = moves s"
proof -
  from handleCellClick_terminal [OF assms, of "fst c" "snd c"] show ?thesis
  proof
    assume "handleCellClick s (fst c) (snd c) = Inl TypeError"
    then show ?thesis by (simp add: click_def)
  next
    assume "\<exists>s'. handleCellClick s (fst c) (snd c) = Inr s' \<and> board s' = board s \<and>
       segments s' = segments s \<and> score s' = score s \<and> moves s' = moves s"
    then obtain s1 where s1: "handleCellClick s (fst c) (snd c) = Inr s1" "board s1 = board s"
      "segments s1 = segments s" "score s1 = score s" "moves s1 = moves s" by blast
    from assms(1) s1(2) have "wf_board (board s1)" by simp
    from render_wf [OF this] obtain s2 where "render s1 = Inr s2" "board s2 = board s1"
      "segments s2 = segments s1" "score s2 = score s1" "moves s2 = moves s1" by blast
    with s1 show ?thesis by (simp add: click_def)
  qed
qed

lemma play_terminal:
  assumes "wf_board (board s)" "findAnyLegalMove (board s) (segments s) = Inr (board s, False)"
  shows "board (play s cs) = board s \<and> segments (play s cs) = segments s \<and>
         score (play s cs) = score s \<and> moves (play s cs) = moves s"
  using assms
proof (induction cs arbitrary: s)
  case Nil
  then show ?case by simp
next
  case (Cons c cs)
  note t = click_terminal [OF Cons.prems, of c]
  from t Cons.prems have "wf_board (board (click s c))"
    "findAnyLegalMove (board (click s c)) (segments (click s c)) = Inr (board (click s c), False)"
    by simp_all
  from Cons.IH [OF this] t show ?case by simp
qed

section \<open>Sessions of legal moves\<close>

lemma render_legal:
  assumes "wf_board (board s)" "inside x y" "legal_at (board s) (segments s) x y"
  shows "render s = Inr s"
  using findAnyLegalMove_wf [OF assms(1), of "segments s"] assms(2,3)
  by (auto simp: render_def)

lemma render_board:
  assumes "wf_board (board s)"
  shows "\<exists>g. render s = Inr (s\<lparr> gameOver := g \<rparr>)"
proof -
  have "s\<lparr> board := board s \<rparr> = s" by simp
  with findAnyLegalMove_wf [OF assms, of "segments s"] show ?thesis
    by (cases "\<exists>x y. inside x y \<and> legal_at (board s) (segments s) x y")
       (auto simp: render_def intro: exI [of _ "gameOver s"] exI [of _ True])
qed

lemma play_legal_play:
  assumes "wf_board (board s)" "play_legal s cs = Some t"
  shows "wf_board (board t) \<and>
         (cs = [] \<and> t = s \<or> (\<exists>g. play s cs = t\<lparr> gameOver := g \<rparr>))"
  using assms
proof (induction cs arbitrary: s)
  case Nil
  then show ?case by simp
next
  case (Cons c cs)
  from Cons.prems(2) obtain s1 where
    h: "handleCellClick s (fst c) (snd c) = Inr s1" and p: "play_legal s1 cs = Some t"
    by (auto split: if_splits sum.splits)
  from handleCellClick_wf [OF Cons.prems(1) h] have w1: "wf_board (board s1)" .
  from Cons.IH [OF w1 p] have wt: "wf_board (board t)" and
    d: "cs = [] \<and> t = s1 \<or> (\<exists>g. play s1 cs = t\<lparr> gameOver := g \<rparr>)" by auto
  show ?case
  proof (cases cs)
    case Nil
    with d p have "t = s1" by simp
    moreover from render_board [OF w1] obtain g where "render s1 = Inr (s1\<lparr> gameOver := g \<rparr>)" ..
    ultimately have "play s (c # cs) = t\<lparr> gameOver := g \<rparr>"
      using h Nil by (simp add: click_def)
    with wt show ?thesis by blast
  next
    case (Cons c' cs')
    with p have "inside (fst c') (snd c')" "legal_at (board s1) (segments s1) (fst c') (snd c')"
      by (auto split: if_splits)
    from render_legal [OF w1 this] h have "click s c = s1" by (simp add: click_def)
    moreover from d Cons obtain g where "play s1 cs = t\<lparr> gameOver := g \<rparr>" by auto
    ultimately have "play s (c # cs) = t\<lparr> gameOver := g \<rparr>" by simp
    with wt show ?thesis by blast
  qed
qed

section \<open>Seeding, enumeration, rejected moves and termination\<close>

lemma get_cell_cross_board:
  assumes "inside x y"
  shows "get_cell cross_board x y =
     Inr (Some (if ((y = CENTER \<or> y = CENTER + 1) \<and> CENTER - 3 \<le> x \<and> x \<le> CENTER + 4) \<or>
                   ((x = CENTER \<or> x = CENTER + 1) \<and> CENTER - 3 \<le> y \<and> y \<le> CENTER + 4)
                then 1 else 0))"
proof -
  from assms have x: "0 \<le> x" "x < N" and y: "0 \<le> y" "y < N" by (auto simp: inside_def)
  have n: "[0 .. N - 1] ! nat k = k" if "0 \<le> k" "k < N" for k
    using that by (simp add: nth_upto)
  have l: "length [0 .. N - 1] = nat N" by (simp add: N_def)
  from x y have lx: "nat x < nat N" and ly: "nat y < nat N" by auto
  show ?thesis
    unfolding cross_board_def get_cell_def elem_def
    using x y lx ly by (simp add: l n del: upto.simps)
qed

lemma legal_cross_10_6: "inside 10 6 \<and> legal_at cross_board [] 10 6"
  by code_simp

lemma reachable_new_game: "reachable new_game"
proof -
  have "wf_board (board new_game)" by (simp add: new_game_def wf_cross_board)
  moreover have "inside 10 6" "legal_at (board new_game) (segments new_game) 10 6"
    using legal_cross_10_6 by (simp_all add: new_game_def)
  ultimately have "render new_game = Inr new_game" by (rule render_legal)
  with initial_game_eq show ?thesis by (rule reachable.start)
qed

lemma reachable_play: "reachable s \<Longrightarrow> reachable (play s cs)"
  by (induction cs arbitrary: s) (auto intro: reachable.step)

lemma play_legal_segments:
  assumes "wf_board (board s)" "play_legal s cs = Some t"
  shows "board (play s cs) = board t \<and> segments (play s cs) = segments t \<and>
         score (play s cs) = score t \<and> moves (play s cs) = moves t"
  using play_legal_play [OF assms] by auto

text \<open>
  C7. With \<open>N = 21\<close> and lines of 8 (three cells before the centre \<open>CENTER = 10\<close> and
  four after it), \<^verbatim>\<open>seedInitialCross\<close> applied to the empty board returns a board and
  raises nothing; the board still has \<open>N\<close> rows of \<open>N\<close> cells, and a cell of it holds 1
  exactly when it lies in one of the two rows \<open>y = CENTER, CENTER + 1\<close> with
  \<open>CENTER - 3 \<le> x \<le> CENTER + 4\<close> or in one of the two columns \<open>x = CENTER, CENTER + 1\<close>
  with \<open>CENTER - 3 \<le> y \<le> CENTER + 4\<close>, and holds 0 otherwise. In both seeding loops a
  coordinate that is not inside the board is passed over without a read or a write.
\<close>

theorem seeding_correct:
  "N = 21 \<and> CENTER = 10 \<and>
   (\<exists>b. seedInitialCross makeEmptyBoard = Inr b \<and> wf_board b \<and>
      (\<forall>x y. inside x y \<longrightarrow>
         get_cell b x y =
           Inr (Some (if ((y = CENTER \<or> y = CENTER + 1) \<and> CENTER - 3 \<le> x \<and> x \<le> CENTER + 4) \<or>
                         ((x = CENTER \<or> x = CENTER + 1) \<and> CENTER - 3 \<le> y \<and> y \<le> CENTER + 4)
                      then 1 else 0)))) \<and>
   (\<forall>b ry dx dxs. \<not> inside (CENTER + dx) ry \<longrightarrow> seed_row b ry (dx # dxs) = seed_row b ry dxs) \<and>
   (\<forall>b cx dy dys. \<not> inside cx (CENTER + dy) \<longrightarrow> seed_col b cx (dy # dys) = seed_col b cx dys)"
proof -
  have "N = 21" "CENTER = 10" by (simp_all add: N_def CENTER_def)
  moreover from seed_is_cross wf_cross_board get_cell_cross_board
  have "\<exists>b. seedInitialCross makeEmptyBoard = Inr b \<and> wf_board b \<and>
      (\<forall>x y. inside x y \<longrightarrow>
         get_cell b x y =
           Inr (Some (if ((y = CENTER \<or> y = CENTER + 1) \<and> CENTER - 3 \<le> x \<and> x \<le> CENTER + 4) \<or>
                         ((x = CENTER \<or> x = CENTER + 1) \<and> CENTER - 3 \<le> y \<and> y \<le> CENTER + 4)
                      then 1 else 0)))"
    by blast
  moreover have "\<forall>b ry dx dxs. \<not> inside (CENTER + dx) ry \<longrightarrow>
      seed_row b ry (dx # dxs) = seed_row b ry dxs"
    by (simp add: Let_def)
  moreover have "\<forall>b cx dy dys. \<not> inside cx (CENTER + dy) \<longrightarrow>
      seed_col b cx (dy # dys) = seed_col b cx dys"
    by (simp add: Let_def)
  ultimately show ?thesis by blast
qed

theorem seeding_correct_witness:
  "inside 7 11 \<and> inside 6 11 \<and>
   (\<exists>b. seedInitialCross makeEmptyBoard = Inr b \<and>
      get_cell b 7 11 = Inr (Some 1) \<and> get_cell b 6 11 = Inr (Some 0))"
proof -
  have i: "inside 7 11" "inside 6 11" by (simp_all add: inside_def N_def)
  from seeding_correct have "\<exists>b. seedInitialCross makeEmptyBoard = Inr b \<and> wf_board b \<and>
      (\<forall>x y. inside x y \<longrightarrow>
         get_cell b x y =
           Inr (Some (if ((y = CENTER \<or> y = CENTER + 1) \<and> CENTER - 3 \<le> x \<and> x \<le> CENTER + 4) \<or>
                         ((x = CENTER \<or> x = CENTER + 1) \<and> CENTER - 3 \<le> y \<and> y \<le> CENTER + 4)
                      then 1 else 0)))"
    by (elim conjE)
  then obtain b where b: "seedInitialCross makeEmptyBoard = Inr b"
    and c: "\<forall>x y. inside x y \<longrightarrow>
         get_cell b x y =
           Inr (Some (if ((y = CENTER \<or> y = CENTER + 1) \<and> CENTER - 3 \<le> x \<and> x \<le> CENTER + 4) \<or>
                         ((x = CENTER \<or> x = CENTER + 1) \<and> CENTER - 3 \<le> y \<and> y \<le> CENTER + 4)
                      then 1 else 0))"
    by blast
  from c i have "get_cell b 7 11 = Inr (Some 1)" "get_cell b 6 11 = Inr (Some 0)"
    by (simp_all add: CENTER_def N_def)
  with b i show ?thesis by blast
qed

text \<open>
  C8. On every board of the data model and for every ledger, \<^verbatim>\<open>findAnyLegalMove\<close>
  and \<^verbatim>\<open>getAllLegalMoves\<close> both return, leave the board as it was, and agree:
  \<^verbatim>\<open>findAnyLegalMove\<close> is true exactly when some empty cell of the board has an
  evaluation with a positive count, which is exactly when the list of
  \<^verbatim>\<open>getAllLegalMoves\<close> is not empty.
\<close>

theorem enumerators_agree:
  assumes "wf_board b"
  shows "\<exists>found out.
     findAnyLegalMove b existingSegments = Inr (b, found) \<and>
     getAllLegalMoves b existingSegments = Inr (b, out) \<and>
     (found \<longleftrightarrow> (\<exists>x y r. inside x y \<and> get_cell b x y = Inr (Some 0) \<and>
                    linesCreatedIfPlaced b x y existingSegments = Inr (b, r) \<and> 0 < count r)) \<and>
     (found \<longleftrightarrow> out \<noteq> [])"
proof -
  let ?L = "\<exists>x y. inside x y \<and> legal_at b existingSegments x y"
  from getAllLegalMoves_wf [OF assms, of existingSegments]
  obtain out where out: "getAllLegalMoves b existingSegments = Inr (b, out)" "out \<noteq> [] \<longleftrightarrow> ?L"
    by blast
  have "?L \<longleftrightarrow> (\<exists>x y r. inside x y \<and> get_cell b x y = Inr (Some 0) \<and>
                    linesCreatedIfPlaced b x y existingSegments = Inr (b, r) \<and> 0 < count r)"
    by (simp add: legal_at_iff [OF assms])
  with out findAnyLegalMove_wf [OF assms, of existingSegments] show ?thesis by blast
qed

theorem enumerators_agree_witness:
  "wf_board cross_board \<and>
   findAnyLegalMove cross_board [] = Inr (cross_board, True) \<and>
   (\<exists>out. getAllLegalMoves cross_board [] = Inr (cross_board, out) \<and> out \<noteq> [])"
proof -
  from legal_cross_10_6 legal_at_iff [OF wf_cross_board, of "[]" 10 6]
  have "\<exists>x y r. inside x y \<and> get_cell cross_board x y = Inr (Some 0) \<and>
                    linesCreatedIfPlaced cross_board x y [] = Inr (cross_board, r) \<and> 0 < count r"
    by blast
  with enumerators_agree [OF wf_cross_board, of "[]"] wf_cross_board show ?thesis by auto
qed

text \<open>
  C6. When \<^verbatim>\<open>handleCellClick\<close> is called while the game is over, or on a cell that
  does not read 0, or on an empty cell whose evaluation counts 0 windows, it returns
  without raising, and board, ledger, score and move counter are what they were. (In the
  third case the message changes to the invalid-move text, as the witness shows.)
\<close>

theorem rejected_move_changes_nothing:
  assumes "gameOver s \<or>
           (\<exists>v. get_cell (board s) x y = Inr v \<and> v \<noteq> Some 0) \<or>
           (wf_board (board s) \<and> get_cell (board s) x y = Inr (Some 0) \<and>
            (\<exists>b r. linesCreatedIfPlaced (board s) x y (segments s) = Inr (b, r) \<and> count r = 0))"
  shows "\<exists>s'. handleCellClick s x y = Inr s' \<and> board s' = board s \<and>
           segments s' = segments s \<and> score s' = score s \<and> moves s' = moves s"
proof (cases "gameOver s")
  case True
  then show ?thesis by (simp add: handleCellClick_def)
next
  case False
  show ?thesis
  proof (cases "\<exists>v. get_cell (board s) x y = Inr v \<and> v \<noteq> Some 0")
    case True
    with False show ?thesis by (auto simp: handleCellClick_def)
  next
    case f: False
    with False assms obtain b r where w: "wf_board (board s)"
      and g: "get_cell (board s) x y = Inr (Some 0)"
      and l: "linesCreatedIfPlaced (board s) x y (segments s) = Inr (b, r)" "count r = 0"
      by blast
    from linesCreatedIfPlaced_wf [OF w, of x y "segments s"] l have "b = board s" by auto
    with False g l show ?thesis by (simp add: handleCellClick_def)
  qed
qed

theorem rejected_move_changes_nothing_witness:
  "wf_board (board new_game) \<and> get_cell (board new_game) 0 0 = Inr (Some 0) \<and>
   (\<exists>b r. linesCreatedIfPlaced (board new_game) 0 0 (segments new_game) = Inr (b, r) \<and> count r = 0) \<and>
   (\<exists>s'. handleCellClick new_game 0 0 = Inr s' \<and> board s' = board new_game \<and>
      segments s' = segments new_game \<and> score s' = 0 \<and> moves s' = 0 \<and> message s' = MsgInvalid)"
proof -
  have w: "wf_board (board new_game)" by (simp add: new_game_def wf_cross_board)
  have g: "get_cell (board new_game) 0 0 = Inr (Some 0)"
    using get_cell_cross_board [of 0 0] by (simp add: new_game_def inside_def N_def CENTER_def)
  from linesCreatedIfPlaced_wf [OF w, of 0 0 "segments new_game"]
  obtain r where r: "linesCreatedIfPlaced (board new_game) 0 0 (segments new_game) = Inr (board new_game, r)"
    by blast
  have "map_sum id (\<lambda>p. count (snd p)) (linesCreatedIfPlaced (board new_game) 0 0 (segments new_game)) = Inr 0"
    by code_simp
  with r have c: "count r = 0" by simp
  with r have e: "\<exists>b r. linesCreatedIfPlaced (board new_game) 0 0 (segments new_game) = Inr (b, r) \<and> count r = 0"
    by blast
  from rejected_move_changes_nothing [of new_game 0 0] w g e
  obtain s' where s': "handleCellClick new_game 0 0 = Inr s'" "board s' = board new_game"
      "segments s' = segments new_game" "score s' = score new_game" "moves s' = moves new_game"
    by blast
  have "\<not> gameOver new_game" by (simp add: new_game_def)
  with g r c s'(1) have "message s' = MsgInvalid" by (auto simp: handleCellClick_def)
  with s' w g e show ?thesis by (simp add: new_game_def)
qed

text \<open>
  C9. In every reachable state in which \<^verbatim>\<open>findAnyLegalMove(board, segments)\<close> is
  false, any further clicks, without a reset, leave board, ledger and score as they are,
  so that \<^verbatim>\<open>findAnyLegalMove\<close> is still false after them. The witness is the state
  after the complete game \<open>terminal_clicks\<close> from the seeded board.
\<close>

theorem monotonic_termination:
  assumes "reachable s" "findAnyLegalMove (board s) (segments s) = Inr (b, False)"
  shows "board (play s cs) = board s \<and> segments (play s cs) = segments s \<and>
         score (play s cs) = score s \<and>
         findAnyLegalMove (board (play s cs)) (segments (play s cs)) = Inr (board s, False)"
proof -
  from reachable_wf [OF assms(1)] have w: "wf_board (board s)" .
  with findAnyLegalMove_wf [OF w, of "segments s"] assms(2)
  have f: "findAnyLegalMove (board s) (segments s) = Inr (board s, False)" by simp
  from play_terminal [OF w f, of cs] f show ?thesis by simp
qed

lemma terminal_scan:
  "map_option (\<lambda>t. (map_sum id snd (findAnyLegalMove (board t) (segments t)), score t))
     (play_legal new_game terminal_clicks) = Some (Inr False, 41)"
  by code_simp

theorem monotonic_termination_witness:
  "reachable terminal_game \<and>
   findAnyLegalMove (board terminal_game) (segments terminal_game) = Inr (board terminal_game, False) \<and>
   board (play terminal_game [(10, 5), (0, 0), (16, 10)]) = board terminal_game \<and>
   segments (play terminal_game [(10, 5), (0, 0), (16, 10)]) = segments terminal_game \<and>
   score (play terminal_game [(10, 5), (0, 0), (16, 10)]) = 41"
proof -
  have w: "wf_board (board new_game)" by (simp add: new_game_def wf_cross_board)
  from terminal_scan obtain t where t: "play_legal new_game terminal_clicks = Some t"
    and s: "map_sum id snd (findAnyLegalMove (board t) (segments t)) = Inr False" "score t = 41"
    by auto
  from play_legal_play [OF w t] have wt: "wf_board (board t)" by simp
  from play_legal_segments [OF w t]
  have e: "board terminal_game = board t" "segments terminal_game = segments t"
    "score terminal_game = score t"
    by (simp_all add: terminal_game_def)
  from findAnyLegalMove_wf [OF wt, of "segments t"] s(1)
  have "findAnyLegalMove (board t) (segments t) = Inr (board t, False)" by auto
  with e have f: "findAnyLegalMove (board terminal_game) (segments terminal_game) =
      Inr (board terminal_game, False)" by simp
  have r: "reachable terminal_game"
    unfolding terminal_game_def by (rule reachable_play [OF reachable_new_game])
  from monotonic_termination [OF r f, of "[(10, 5), (0, 0), (16, 10)]"] r f e s(2)
  show ?thesis by simp
qed

section \<open>The ledger and the windows of one move\<close>

text \<open>
  C1, as stated, fails. From the seeded board the four legal moves (9,7), (9,9), (9,12),
  (9,8) leave five windows in the ledger; the last two were committed by the move at (9,8),
  both lie on the vertical axis, and they share four cells. \<^verbatim>\<open>pushIfUnique\<close> tests a
  candidate against the ledger as it was before the move, never against the other window of
  the same move, and both candidates contain the placed cell.
\<close>

lemma double_score_ledger:
  "map_option (\<lambda>t. (length (segments t), drop 3 (segments t)))
     (play_legal new_game double_score_clicks) =
   Some (5, [window 9 8 0 1 1 1 3, window 9 8 0 1 1 0 4])"
  by code_simp

lemma double_score_overlap:
  "set (cells (window 9 8 0 1 1 1 3)) \<inter> set (cells (window 9 8 0 1 1 0 4)) =
     {(9, 8), (9, 9), (9, 10), (9, 11)}"
  by (simp add: window_cells) 

theorem ledger_disjointness_counterexample:
  "initial_game = Inr new_game \<and>
   length (segments (play new_game double_score_clicks)) = 5 \<and>
   drop 3 (segments (play new_game double_score_clicks)) =
     [window 9 8 0 1 1 1 3, window 9 8 0 1 1 0 4] \<and>
   axisId (window 9 8 0 1 1 1 3) = axisId (window 9 8 0 1 1 0 4) \<and>
   set (cells (window 9 8 0 1 1 1 3)) \<inter> set (cells (window 9 8 0 1 1 0 4)) =
     {(9, 8), (9, 9), (9, 10), (9, 11)}"
proof -
  have w: "wf_board (board new_game)" by (simp add: new_game_def wf_cross_board)
  from double_score_ledger obtain t where t: "play_legal new_game double_score_clicks = Some t"
    and l: "length (segments t) = 5"
    and d: "drop 3 (segments t) = [window 9 8 0 1 1 1 3, window 9 8 0 1 1 0 4]"
    by auto
  from play_legal_segments [OF w t]
  have e: "segments (play new_game double_score_clicks) = segments t" by simp
  show ?thesis using initial_game_eq e l d double_score_overlap by simp
qed

text \<open>
  C1, amended. In every session, two windows that were committed by different moves and lie
  on the same axis have disjoint cell sets; each committed window contains the cell of its
  own move, and both windows are entries of the ledger after the session. (Two windows of
  one move on one axis therefore always share the placed cell.)
\<close>

theorem windows_of_different_moves_disjoint:
  assumes "i < j" "j < length cs"
    and "w \<in> set (commits s cs ! i)" "w' \<in> set (commits s cs ! j)"
    and "axisId w = axisId w'"
  shows "set (cells w) \<inter> set (cells w') = {} \<and>
         cs ! i \<in> set (cells w) \<and> cs ! j \<in> set (cells w') \<and>
         w \<in> set (segments (play s cs)) \<and> w' \<in> set (segments (play s cs))"
proof -
  from assms(1,2) have i: "i < length cs" by simp
  have m: "v \<in> set (segments (play s cs))" if "k < length cs" "v \<in> set (commits s cs ! k)" for k v
  proof -
    from that have "v \<in> set (concat (commits s cs))"
      by (metis commits_length nth_mem set_concat UN_I)
    then show ?thesis by (simp add: play_segments)
  qed
  from commits_disjoint [OF assms] commits_contains [OF i assms(3)]
    commits_contains [OF assms(2,4)] m [OF i assms(3)] m [OF assms(2,4)]
  show ?thesis by simp
qed

lemma two_vertical_commits:
  "commits new_game [(10, 6), (11, 6)] = [[window 10 6 0 1 1 0 4], [window 11 6 0 1 1 0 4]]"
  by code_simp

theorem windows_of_different_moves_disjoint_witness:
  "(0 :: nat) < 1 \<and> 1 < length [(10, 6), (11, 6 :: int)] \<and>
   window 10 6 0 1 1 0 4 \<in> set (commits new_game [(10, 6), (11, 6)] ! 0) \<and>
   window 11 6 0 1 1 0 4 \<in> set (commits new_game [(10, 6), (11, 6)] ! 1) \<and>
   axisId (window 10 6 0 1 1 0 4) = axisId (window 11 6 0 1 1 0 4) \<and>
   set (cells (window 10 6 0 1 1 0 4)) \<inter> set (cells (window 11 6 0 1 1 0 4)) = {} \<and>
   (10, 6) \<in> set (cells (window 10 6 0 1 1 0 4)) \<and>
   window 11 6 0 1 1 0 4 \<in> set (segments (play new_game [(10, 6), (11, 6)]))"
proof -
  have a: "window 10 6 0 1 1 0 4 \<in> set (commits new_game [(10, 6), (11, 6)] ! 0)"
    and b: "window 11 6 0 1 1 0 4 \<in> set (commits new_game [(10, 6), (11, 6)] ! 1)"
    unfolding two_vertical_commits by simp_all
  have c: "axisId (window 10 6 0 1 1 0 4) = axisId (window 11 6 0 1 1 0 4)" by simp
  from windows_of_different_moves_disjoint [OF _ _ a b c] a b c
  show ?thesis by simp
qed

section \<open>Windows of one axis\<close>

text \<open>
  C3, as stated, fails. In Scenario B the probe at (10,8) has four occupied cells on each
  side on the horizontal axis, so \<open>L = R = 4\<close> and the total is 9; the left-heavy window
  is (6,8) to (10,8), the right-heavy one (10,8) to (14,8), they differ, and both are
  produced.
\<close>

theorem equal_counts_counterexample:
  "set_cell scenarioB_board 10 8 1 = Inr scenarioB_probe \<and>
   count_run scenarioB_probe (10 - 1) (8 - 0) (- 1) (- 0) 0 = Inr 4 \<and>
   count_run scenarioB_probe (10 + 1) (8 + 0) 1 0 0 = Inr 4 \<and>
   axis_step scenarioB_probe 10 8 [] (1, 0) 0 [] =
     Inr [window 10 8 1 0 0 4 0, window 10 8 1 0 0 0 4] \<and>
   window 10 8 1 0 0 4 0 \<noteq> window 10 8 1 0 0 0 4"
  by code_simp

lemma window_same_cells:
  assumes "0 \<le> l" "0 \<le> r" "l + r = 4"
  shows "window x y dx dy a (min 4 l) (4 - min 4 l) = window x y dx dy a l r"
    "window x y dx dy a (4 - min 4 r) (min 4 r) = window x y dx dy a l r"
proof -
  from assms have e: "min 4 l = l" "4 - l = r" "min 4 r = r" "4 - r = l" by auto
  show "window x y dx dy a (min 4 l) (4 - min 4 l) = window x y dx dy a l r"
    "window x y dx dy a (4 - min 4 r) (min 4 r) = window x y dx dy a l r"
    by (simp_all only: e)
qed

text \<open>
  C3, amended. In every axis evaluation whose total is exactly 5 (with \<open>L = R\<close> that is
  \<open>L = R = 2\<close>), the left-heavy and the right-heavy candidate are the same window, the one
  with \<open>L\<close> cells before the placed cell and \<open>R\<close> after it; the axis adds exactly this
  one window to the windows of the axes before it when it shares no cell with a ledger
  entry of its axis, and nothing when it does.
\<close>

theorem total_five_one_window:
  assumes "count_run b (x - dx) (y - dy) (- dx) (- dy) 0 = Inr l"
    and "count_run b (x + dx) (y + dy) dx dy 0 = Inr r"
    and "l + 1 + r = 5"
    and "\<forall>s \<in> set sg. axisId s \<noteq> a"
  shows "window x y dx dy a (min 4 l) (4 - min 4 l) = window x y dx dy a (4 - min 4 r) (min 4 r) \<and>
         axis_step b x y existingSegments (dx, dy) a sg =
           Inr (if overlapsExisting existingSegments (window x y dx dy a l r) then sg
                else sg @ [window x y dx dy a l r])"
proof -
  from count_run_ge [OF assms(1)] count_run_ge [OF assms(2)] assms(3)
  have lr: "0 \<le> l" "0 \<le> r" "l + r = 4" by auto
  note ws = window_same_cells [OF lr, of x y dx dy a]
  have nk: "\<not> list_ex (\<lambda>s. key s = key (window x y dx dy a l r)) sg"
    using assms(4) by (auto simp: list_ex_iff key_def)
  have nk': "list_ex (\<lambda>s. key s = key (window x y dx dy a l r)) (sg @ [window x y dx dy a l r])"
    by simp
  from lr have t: "min 4 l = l" "4 - l = r" "min 4 r = r" "4 - r = l" "l - 4 \<le> 0" "r - 4 \<le> 0"
    by auto
  have "axis_windows existingSegments x y dx dy a l r sg =
      (if overlapsExisting existingSegments (window x y dx dy a l r) then sg
       else sg @ [window x y dx dy a l r])"
    unfolding axis_windows_def Let_def pushIfUnique_def using lr nk nk' assms(3)
    by (simp only: t) (simp add: t)
  with assms(1,2) ws show ?thesis by (simp add: axis_step_def)
qed

lemma five_run_counts:
  "count_run five_run_probe (10 - 1) (8 - 0) (- 1) (- 0) 0 = Inr 2 \<and>
   count_run five_run_probe (10 + 1) (8 + 0) 1 0 0 = Inr 2"
  by code_simp

theorem total_five_one_window_witness:
  "count_run five_run_probe (10 - 1) (8 - 0) (- 1) (- 0) 0 = Inr 2 \<and>
   count_run five_run_probe (10 + 1) (8 + 0) 1 0 0 = Inr 2 \<and>
   (2 :: int) + 1 + 2 = 5 \<and>
   axis_step five_run_probe 10 8 [] (1, 0) 0 [] = Inr [window 10 8 1 0 0 2 2]"
proof -
  from five_run_counts have l: "count_run five_run_probe (10 - 1) (8 - 0) (- 1) (- 0) 0 = Inr 2"
    and r: "count_run five_run_probe (10 + 1) (8 + 0) 1 0 0 = Inr 2" by simp_all
  have o: "\<not> overlapsExisting [] (window 10 8 1 0 0 2 2)" by (simp add: overlapsExisting_def)
  from total_five_one_window [OF l r, of "[]" 0 "[]"] o l r show ?thesis by simp
qed

lemma scenarioA_facts:
  "wf_board scenarioA_board \<and> inside 10 8 \<and>
   get_cell scenarioA_board 10 8 = Inr (Some 0) \<and>
   set_cell scenarioA_board 10 8 1 = Inr scenarioA_probe \<and>
   map (\<lambda>d. (count_run scenarioA_probe (10 - fst d) (8 - snd d) (- fst d) (- snd d) 0,
             count_run scenarioA_probe (10 + fst d) (8 + snd d) (fst d) (snd d) 0)) DIRS =
     [(Inr 4, Inr 0), (Inr 0, Inr 0), (Inr 0, Inr 0), (Inr 0, Inr 0)]"
  by code_simp

text \<open>
  C4. On the board whose occupied cells are (6,8) to (9,8), with any ledger that holds a
  window of the horizontal axis with the cells (5,8) to (9,8), the evaluation of (10,8)
  returns count 0 and no window, although (6,8) to (10,8) would be five in a row: with the
  empty ledger the same evaluation counts one window, as the witness shows.
\<close>

theorem same_axis_overlap_blocks:
  assumes "w \<in> set existingSegments" "axisId w = 0"
    and "cells w = [(5, 8), (6, 8), (7, 8), (8, 8), (9, 8)]"
  shows "linesCreatedIfPlaced scenarioA_board 10 8 existingSegments =
           Inr (scenarioA_board, \<lparr> count = 0, segs = [] \<rparr>)"
proof -
  from scenarioA_facts have wf: "wf_board scenarioA_board" and i: "inside 10 8"
    and g: "get_cell scenarioA_board 10 8 = Inr (Some 0)"
    and s: "set_cell scenarioA_board 10 8 1 = Inr scenarioA_probe"
    and c: "count_run scenarioA_probe (10 - 1) (8 - 0) (- 1) (- 0) 0 = Inr 4"
      "count_run scenarioA_probe (10 + 1) (8 + 0) 1 0 0 = Inr 0"
      "count_run scenarioA_probe (10 - 0) (8 - 1) (- 0) (- 1) 0 = Inr 0"
      "count_run scenarioA_probe (10 + 0) (8 + 1) 0 1 0 = Inr 0"
      "count_run scenarioA_probe (10 - 1) (8 - 1) (- 1) (- 1) 0 = Inr 0"
      "count_run scenarioA_probe (10 + 1) (8 + 1) 1 1 0 = Inr 0"
      "count_run scenarioA_probe (10 - 1) (8 - (- 1)) (- 1) (- (- 1)) 0 = Inr 0"
      "count_run scenarioA_probe (10 + 1) (8 + (- 1)) 1 (- 1) 0 = Inr 0"
    by (simp_all add: DIRS_def)
  have "(9, 8) \<in> set (cells w) \<inter> set (cells (window 10 8 1 0 0 4 0))"
    by (simp add: assms(3) window_cells)
  with assms(1,2) have o: "overlapsExisting existingSegments (window 10 8 1 0 0 4 0)"
    unfolding overlapsExisting_iff by (intro bexI [of _ w]) auto
  have a0: "axis_step scenarioA_probe 10 8 existingSegments (1, 0) 0 [] = Inr []"
    using c(1,2) o by (simp add: axis_step_def axis_windows_def pushIfUnique_def)
  have a1: "axis_step scenarioA_probe 10 8 existingSegments (0, 1) (Suc 0) [] = Inr []"
    using c(3,4) by (simp add: axis_step_def axis_windows_def)
  have a2: "axis_step scenarioA_probe 10 8 existingSegments (1, 1) 2 [] = Inr []"
    using c(5,6) by (simp add: axis_step_def axis_windows_def)
  have a3: "axis_step scenarioA_probe 10 8 existingSegments (1, - 1) 3 [] = Inr []"
    using c(7,8) by (simp add: axis_step_def axis_windows_def)
  have z: "zip DIRS [0 ..< length DIRS] = [((1, 0), 0), ((0, 1), 1), ((1, 1), 2), ((1, - 1), 3)]"
    by (simp add: DIRS_def upt_rec)
  have f: "forEach_dirs scenarioA_probe 10 8 existingSegments (zip DIRS [0 ..< length DIRS]) [] = Inr []"
    unfolding z by (simp add: a0 a1 a2 a3)
  have "set_cell scenarioA_probe 10 8 0 = set_cell scenarioA_board 10 8 0"
    by (rule set_cell_twice [OF wf i s])
  also have "\<dots> = Inr scenarioA_board" by (rule set_cell_same [OF wf i g])
  finally have u: "set_cell scenarioA_probe 10 8 0 = Inr scenarioA_board" .
  from i g s f u show ?thesis by (simp add: linesCreatedIfPlaced_def)
qed

theorem same_axis_overlap_blocks_witness:
  "linesCreatedIfPlaced scenarioA_board 10 8
     [\<lparr> x1 = 5, y1 = 8, x2 = 9, y2 = 8, axisId = 0,
        cells = [(5, 8), (6, 8), (7, 8), (8, 8), (9, 8)] \<rparr>] =
   Inr (scenarioA_board, \<lparr> count = 0, segs = [] \<rparr>) \<and>
   map_sum id (\<lambda>p. count (snd p)) (linesCreatedIfPlaced scenarioA_board 10 8 []) = Inr 1"
proof -
  have "map_sum id (\<lambda>p. count (snd p)) (linesCreatedIfPlaced scenarioA_board 10 8 []) = Inr 1"
    by code_simp
  with same_axis_overlap_blocks [of "\<lparr> x1 = 5, y1 = 8, x2 = 9, y2 = 8, axisId = 0,
        cells = [(5, 8), (6, 8), (7, 8), (8, 8), (9, 8)] \<rparr>"
      "[\<lparr> x1 = 5, y1 = 8, x2 = 9, y2 = 8, axisId = 0,
        cells = [(5, 8), (6, 8), (7, 8), (8, 8), (9, 8)] \<rparr>]"]
  show ?thesis by simp
qed

section \<open>A run of nine around the placed cell\<close>

lemma occupied_iff: "(x, y) \<in> occupied b \<longleftrightarrow> inside x y \<and> get_cell b x y = Inr (Some 1)"
  by (auto simp: occupied_def inside_def)

lemma not_occupied:
  assumes "wf_board b" "(x, y) \<notin> occupied b"
  shows "\<not> inside x y \<or> get_cell b x y = Inr (Some 0)"
  using get_cell_wf [OF assms(1), of x y] assms(2) by (auto simp: occupied_iff)

lemma count_run_run:
  assumes "wf_board b" "sx \<noteq> 0 \<or> sy \<noteq> 0"
    and "\<forall>i<n. (rx + int i * sx, ry + int i * sy) \<in> occupied b"
    and "(rx + int n * sx, ry + int n * sy) \<notin> occupied b"
  shows "count_run b rx ry sx sy l = Inr (l + int n)"
  using assms(3,4)
proof (induction n arbitrary: rx ry l)
  case 0
  then have "(rx, ry) \<notin> occupied b" by simp
  from not_occupied [OF assms(1) this] show ?case
    by (subst count_run.simps) auto
next
  case (Suc n)
  from Suc.prems(1) have "(rx + int 0 * sx, ry + int 0 * sy) \<in> occupied b" by blast
  then have o: "inside rx ry" "get_cell b rx ry = Inr (Some 1)" by (simp_all add: occupied_iff)
  have "\<forall>i<n. (rx + sx + int i * sx, ry + sy + int i * sy) \<in> occupied b"
  proof (intro allI impI)
    fix i assume "i < n"
    then have "Suc i < Suc n" by simp
    from Suc.prems(1) [rule_format, OF this]
    have m: "(rx + int (Suc i) * sx, ry + int (Suc i) * sy) \<in> occupied b" .
    have e: "(rx + int (Suc i) * sx, ry + int (Suc i) * sy) =
        (rx + sx + int i * sx, ry + sy + int i * sy)"
      by (simp add: algebra_simps)
    from m [unfolded e] show "(rx + sx + int i * sx, ry + sy + int i * sy) \<in> occupied b" .
  qed
  moreover have "(rx + sx + int n * sx, ry + sy + int n * sy) \<notin> occupied b"
  proof -
    have e: "(rx + int (Suc n) * sx, ry + int (Suc n) * sy) =
        (rx + sx + int n * sx, ry + sy + int n * sy)"
      by (simp add: algebra_simps)
    from Suc.prems(2) [unfolded e] show ?thesis .
  qed
  ultimately have "count_run b (rx + sx) (ry + sy) sx sy (l + 1) = Inr (l + 1 + int n)"
    by (rule Suc.IH)
  with o assms(2) show ?case by (subst count_run.simps) auto
qed

lemma occupied_set_cell:
  assumes "wf_board b" "inside x y" "set_cell b x y 1 = Inr b1"
  shows "occupied b1 = insert (x, y) (occupied b)"
proof -
  from set_cell_wf [OF assms(1,2), of 1] assms(3)
  have g: "get_cell b1 x' y' = (if x' = x \<and> y' = y then Inr (Some 1) else get_cell b x' y')"
    for x' y' by auto
  show ?thesis
  proof (rule set_eqI)
    fix p :: "int \<times> int"
    obtain x' y' where p: "p = (x', y')" by (cases p)
    show "p \<in> occupied b1 \<longleftrightarrow> p \<in> insert (x, y) (occupied b)"
      unfolding p using g [of x' y'] assms(2)
      by (cases "x' = x \<and> y' = y") (auto simp: occupied_iff)
  qed
qed

lemma line_cells_iff:
  "(x', y') \<in> line_cells x y dx dy K \<longleftrightarrow> (\<exists>k \<in> K. x' = x + k * dx \<and> y' = y + k * dy)"
  by (auto simp: line_cells_def)

lemma count_forward_on_line:
  assumes "wf_board b1" "occupied b1 = line_cells x y dx dy {-4 .. 4}"
    and "(dx, dy) \<in> set DIRS" "(ex, ey) \<in> set DIRS"
  shows "count_run b1 (x + ex) (y + ey) ex ey 0 = Inr (if (ex, ey) = (dx, dy) then 4 else 0)"
proof (cases "(ex, ey) = (dx, dy)")
  case True
  from assms(3) have nz: "dx \<noteq> 0 \<or> dy \<noteq> 0" by (rule DIRS_nonzero)
  have "\<forall>i<4. (x + dx + int i * dx, y + dy + int i * dy) \<in> occupied b1"
  proof (intro allI impI)
    fix i :: nat assume "i < 4"
    then have "int i + 1 \<in> {-4 .. 4}" by simp
    moreover have "x + dx + int i * dx = x + (int i + 1) * dx" "y + dy + int i * dy = y + (int i + 1) * dy"
      by (simp_all add: algebra_simps)
    ultimately show "(x + dx + int i * dx, y + dy + int i * dy) \<in> occupied b1"
      unfolding assms(2) line_cells_iff by blast
  qed
  moreover have "(x + dx + int 4 * dx, y + dy + int 4 * dy) \<notin> occupied b1"
  proof
    assume "(x + dx + int 4 * dx, y + dy + int 4 * dy) \<in> occupied b1"
    then obtain k where k: "k \<in> {-4 .. 4}" "x + dx + int 4 * dx = x + k * dx"
      "y + dy + int 4 * dy = y + k * dy"
      unfolding assms(2) line_cells_iff by blast
    then have "(5 - k) * dx = 0" "(5 - k) * dy = 0" by (simp_all add: algebra_simps)
    with nz have "k = 5" by auto
    with k(1) show False by simp
  qed
  ultimately have "count_run b1 (x + dx) (y + dy) dx dy 0 = Inr (0 + int 4)"
    by (rule count_run_run [OF assms(1) nz])
  with True show ?thesis by simp
next
  case False
  from assms(4) have nz: "ex \<noteq> 0 \<or> ey \<noteq> 0" by (rule DIRS_nonzero)
  have "(x + ex + int 0 * ex, y + ey + int 0 * ey) \<notin> occupied b1"
  proof
    assume "(x + ex + int 0 * ex, y + ey + int 0 * ey) \<in> occupied b1"
    then obtain k where k: "k \<in> {-4 .. 4}" "ex = k * dx" "ey = k * dy"
      unfolding assms(2) line_cells_iff by auto
    with assms(3,4) False show False by (auto simp: DIRS_def)
  qed
  moreover have "\<forall>i<0. (x + ex + int i * ex, y + ey + int i * ey) \<in> occupied b1" by simp
  ultimately have "count_run b1 (x + ex) (y + ey) ex ey 0 = Inr (0 + int 0)"
    by (rule count_run_run [OF assms(1) nz, rotated])
  with False show ?thesis by simp
qed

lemma count_backward_on_line:
  assumes "wf_board b1" "occupied b1 = line_cells x y dx dy {-4 .. 4}"
    and "(dx, dy) \<in> set DIRS" "(ex, ey) \<in> set DIRS"
  shows "count_run b1 (x - ex) (y - ey) (- ex) (- ey) 0 = Inr (if (ex, ey) = (dx, dy) then 4 else 0)"
proof (cases "(ex, ey) = (dx, dy)")
  case True
  from assms(3) have nz: "- dx \<noteq> 0 \<or> - dy \<noteq> 0" using DIRS_nonzero by auto
  have "\<forall>i<4. (x - dx + int i * (- dx), y - dy + int i * (- dy)) \<in> occupied b1"
  proof (intro allI impI)
    fix i :: nat assume "i < 4"
    then have "- (int i + 1) \<in> {-4 .. 4}" by simp
    moreover have "x - dx + int i * (- dx) = x + (- (int i + 1)) * dx"
      "y - dy + int i * (- dy) = y + (- (int i + 1)) * dy"
      by (simp_all add: algebra_simps)
    ultimately show "(x - dx + int i * (- dx), y - dy + int i * (- dy)) \<in> occupied b1"
      unfolding assms(2) line_cells_iff by blast
  qed
  moreover have "(x - dx + int 4 * (- dx), y - dy + int 4 * (- dy)) \<notin> occupied b1"
  proof
    assume "(x - dx + int 4 * (- dx), y - dy + int 4 * (- dy)) \<in> occupied b1"
    then obtain k where k: "k \<in> {-4 .. 4}" "x - dx + int 4 * (- dx) = x + k * dx"
      "y - dy + int 4 * (- dy) = y + k * dy"
      unfolding assms(2) line_cells_iff by blast
    then have "(5 + k) * dx = 0" "(5 + k) * dy = 0" by (simp_all add: algebra_simps)
    with nz have "k = - 5" by auto
    with k(1) show False by simp
  qed
  ultimately have "count_run b1 (x - dx) (y - dy) (- dx) (- dy) 0 = Inr (0 + int 4)"
    by (rule count_run_run [OF assms(1) nz])
  with True show ?thesis by simp
next
  case False
  from assms(4) have nz: "- ex \<noteq> 0 \<or> - ey \<noteq> 0" using DIRS_nonzero by auto
  have "(x - ex + int 0 * (- ex), y - ey + int 0 * (- ey)) \<notin> occupied b1"
  proof
    assume "(x - ex + int 0 * (- ex), y - ey + int 0 * (- ey)) \<in> occupied b1"
    then obtain k where k: "k \<in> {-4 .. 4}" "- ex = k * dx" "- ey = k * dy"
      unfolding assms(2) line_cells_iff by auto
    with assms(3,4) False show False by (auto simp: DIRS_def)
  qed
  moreover have "\<forall>i<0. (x - ex + int i * (- ex), y - ey + int i * (- ey)) \<in> occupied b1" by simp
  ultimately have "count_run b1 (x - ex) (y - ey) (- ex) (- ey) 0 = Inr (0 + int 0)"
    by (rule count_run_run [OF assms(1) nz, rotated])
  with False show ?thesis by simp
qed

lemma axis_windows_short: "l + 1 + r < 5 \<Longrightarrow> axis_windows ex x y dx dy a l r sg = sg"
  by (simp add: axis_windows_def)

lemma axis_windows_nine:
  assumes "dx \<noteq> 0 \<or> dy \<noteq> 0"
  shows "axis_windows [] x y dx dy a 4 4 [] = [window x y dx dy a 4 0, window x y dx dy a 0 4]"
proof -
  have "key (window x y dx dy a 4 0) \<noteq> key (window x y dx dy a 0 4)"
    using assms by (auto simp: key_def window_def Let_def)
  then show ?thesis
    by (simp add: axis_windows_def pushIfUnique_def overlapsExisting_def)
qed

lemma zip_DIRS:
  "zip DIRS [0 ..< length DIRS] = [((1, 0), 0), ((0, 1), Suc 0), ((1, 1), 2), ((1, - 1), 3)]"
  by (simp add: DIRS_def upt_rec)

lemma interval_4: "{-4 .. 4 :: int} = insert 0 {-4, -3, -2, -1, 1, 2, 3, 4}"
  by auto

text \<open>
  C2. Let the occupied cells of a board be exactly the eight cells at distance 1 to 4 on
  both sides of \<open>(x, y)\<close> along one of the four directions, and let the ledger be empty.
  Then the evaluation of \<open>(x, y)\<close> returns count 2 and exactly two windows, both of that
  axis: the left-heavy one, from four cells before \<open>(x, y)\<close> to \<open>(x, y)\<close>, and the
  right-heavy one, from \<open>(x, y)\<close> to four cells after it. The witness is Scenario B.
\<close>

theorem nine_run_two_windows:
  assumes "wf_board b" "a < length DIRS" "DIRS ! a = (dx, dy)"
    and "occupied b = (\<lambda>k. (x + k * dx, y + k * dy)) ` {-4, -3, -2, -1, 1, 2, 3, 4}"
  shows "linesCreatedIfPlaced b x y [] =
           Inr (b, \<lparr> count = 2, segs = [window x y dx dy a 4 0, window x y dx dy a 0 4] \<rparr>)"
proof -
  let ?K = "{-4, -3, -2, -1, 1, 2, 3, 4} :: int set"
  from assms(2,3) have d: "(dx, dy) \<in> set DIRS" by (metis nth_mem)
  then have nz: "dx \<noteq> 0 \<or> dy \<noteq> 0" by (rule DIRS_nonzero)
  have occ: "occupied b = line_cells x y dx dy ?K"
    by (simp only: assms(4) line_cells_def)
  have "(x + 1 * dx, y + 1 * dy) \<in> occupied b" "(x + (- 1) * dx, y + (- 1) * dy) \<in> occupied b"
    unfolding occ line_cells_iff by blast+
  then have "inside (x + dx) (y + dy)" "inside (x - dx) (y - dy)"
    by (simp_all add: occupied_iff)
  then have i: "inside x y" by (auto simp: inside_def)
  have nocc: "(x, y) \<notin> occupied b"
  proof
    assume "(x, y) \<in> occupied b"
    then obtain k where "k \<in> ?K" "x = x + k * dx" "y = y + k * dy"
      unfolding occ line_cells_iff by blast
    with nz show False by auto
  qed
  from not_occupied [OF assms(1) nocc] i have g: "get_cell b x y = Inr (Some 0)" by simp
  from set_cell_wf [OF assms(1) i, of 1]
  obtain b1 where b1: "set_cell b x y 1 = Inr b1" "wf_board b1" by auto
  have "occupied b1 = insert (x, y) (line_cells x y dx dy ?K)"
    using occupied_set_cell [OF assms(1) i b1(1)] occ by simp
  also have "\<dots> = line_cells x y dx dy {-4 .. 4}"
    unfolding interval_4 by (simp add: line_cells_def)
  finally have occ1: "occupied b1 = line_cells x y dx dy {-4 .. 4}" .
  have st: "axis_step b1 x y [] (ex, ey) j sg =
      Inr (if (ex, ey) = (dx, dy) then axis_windows [] x y dx dy j 4 4 sg else sg)"
    if e: "(ex, ey) \<in> set DIRS" for ex ey j sg
    using count_forward_on_line [OF b1(2) occ1 d e] count_backward_on_line [OF b1(2) occ1 d e]
    by (auto simp: axis_step_def axis_windows_short)
  have m: "(1, 0) \<in> set DIRS" "(0, 1) \<in> set DIRS" "(1, 1) \<in> set DIRS" "(1, - 1) \<in> set DIRS"
    by (simp_all add: DIRS_def)
  from assms(2) have "a = 0 \<or> a = 1 \<or> a = 2 \<or> a = 3" by (auto simp: DIRS_def)
  then have f: "forEach_dirs b1 x y [] (zip DIRS [0 ..< length DIRS]) [] =
      Inr [window x y dx dy a 4 0, window x y dx dy a 0 4]"
  proof (elim disjE)
    assume a: "a = 0"
    with assms(3) have "dx = 1" "dy = 0" by (simp_all add: DIRS_def)
    with a nz show ?thesis
      unfolding zip_DIRS by (simp add: st [OF m(1)] st [OF m(2)] st [OF m(3)] st [OF m(4)] axis_windows_nine)
  next
    assume a: "a = 1"
    with assms(3) have "dx = 0" "dy = 1" by (simp_all add: DIRS_def)
    with a nz show ?thesis
      unfolding zip_DIRS by (simp add: st [OF m(1)] st [OF m(2)] st [OF m(3)] st [OF m(4)] axis_windows_nine)
  next
    assume a: "a = 2"
    with assms(3) have "dx = 1" "dy = 1" by (simp_all add: DIRS_def)
    with a nz show ?thesis
      unfolding zip_DIRS by (simp add: st [OF m(1)] st [OF m(2)] st [OF m(3)] st [OF m(4)] axis_windows_nine)
  next
    assume a: "a = 3"
    with assms(3) have "dx = 1" "dy = - 1" by (simp_all add: DIRS_def)
    with a nz show ?thesis
      unfolding zip_DIRS by (simp add: st [OF m(1)] st [OF m(2)] st [OF m(3)] st [OF m(4)] axis_windows_nine)
  qed
  have "set_cell b1 x y 0 = set_cell b x y 0"
    by (rule set_cell_twice [OF assms(1) i b1(1)])
  also have "\<dots> = Inr b" by (rule set_cell_same [OF assms(1) i g])
  finally have u: "set_cell b1 x y 0 = Inr b" .
  from i g b1(1) f u show ?thesis by (simp add: linesCreatedIfPlaced_def)
qed

lemma occupied_scenarioB:
  "occupied scenarioB_board = {(6, 8), (7, 8), (8, 8), (9, 8), (11, 8), (12, 8), (13, 8), (14, 8)}"
  by code_simp

theorem nine_run_two_windows_witness:
  "wf_board scenarioB_board \<and> (0 :: nat) < length DIRS \<and> DIRS ! 0 = (1, 0) \<and>
   occupied scenarioB_board = (\<lambda>k. (10 + k * 1, 8 + k * 0)) ` {-4, -3, -2, -1, 1, 2, 3, 4} \<and>
   linesCreatedIfPlaced scenarioB_board 10 8 [] =
     Inr (scenarioB_board,
          \<lparr> count = 2,
            segs = [\<lparr> x1 = 6, y1 = 8, x2 = 10, y2 = 8, axisId = 0,
                      cells = [(6, 8), (7, 8), (8, 8), (9, 8), (10, 8)] \<rparr>,
                    \<lparr> x1 = 10, y1 = 8, x2 = 14, y2 = 8, axisId = 0,
                      cells = [(10, 8), (11, 8), (12, 8), (13, 8), (14, 8)] \<rparr>] \<rparr>)"
proof -
  have a: "(0 :: nat) < length DIRS" "DIRS ! 0 = (1, 0)" by (simp_all add: DIRS_def)
  have o: "occupied scenarioB_board =
      (\<lambda>k. (10 + k * 1, 8 + k * 0)) ` {-4, -3, -2, -1, 1, 2, 3, 4}"
    unfolding occupied_scenarioB by auto
  from nine_run_two_windows [OF wf_scenarioB_board a o] wf_scenarioB_board a o
  show ?thesis by (simp add: window_def upto_0_4)
qed

end
